theory Spec2Isabelle
  imports Complex_Main "HOL-Library.Multiset" "HOL-Library.Sublist"
    "HOL-Library.AList" "HOL-Library.Char_ord" "HOL-Library.List_Lexorder" "HOL-Library.Product_Lexorder"
begin

section \<open>Domain model (schedule\_base.py)\<close>

text \<open>
  Python strings are modelled as their UTF-8 byte sequences, Python ints as \<open>int\<close>,
  dictionaries as association lists in insertion order (or as total functions with the
  \<open>defaultdict\<close> default where the code never iterates them), and the floating-point
  scores as real numbers.
\<close>

datatype DayOfWeek = MONDAY | TUESDAY | WEDNESDAY | THURSDAY | FRIDAY

datatype SubjectType = MANDATORY | EGE_PRACTICE | ELECTIVE

datatype py_error = ZeroDivisionError | ValueError

record TimeSlot =
  day :: DayOfWeek
  lesson_number :: int

record Classroom =
  number :: string
  capacity :: int
  floor :: int
  responsible_teacher :: "string option"

record Teacher =
  name :: string
  subjects :: "string list"
  home_classroom :: "string option"
  unavailable_days :: "DayOfWeek set"

record Student =
  student_name :: string
  class_name :: string
  ege_subjects :: "string list"

record Subject =
  subject_name :: string
  subject_type :: SubjectType
  hours_per_week :: int
  subject_teacher :: Teacher
  classes :: "string list"
  is_grouped :: bool
  groups :: "string list"

record EGEPracticeGroup =
  group_subject :: string
  group_teacher :: Teacher
  group_students :: "Student list"
  group_hours_per_week :: int

record Lesson =
  subject :: string
  teacher :: Teacher
  class_or_group :: string
  classroom :: "Classroom option"
  time_slot :: TimeSlot
  is_ege_practice :: bool
  students :: "Student list"

record Schedule =
  lessons :: "Lesson list"

text \<open>The data the loader hands to the phases: \<open>teachers\<close> and \<open>classrooms\<close> are
  dictionaries keyed by name and by room number.\<close>

record Loader =
  teachers :: "(string \<times> Teacher) list"
  classrooms :: "(string \<times> Classroom) list"
  loader_subjects :: "Subject list"
  ege_groups :: "EGEPracticeGroup list"

definition all_days :: "DayOfWeek list" where
  "all_days = [MONDAY, TUESDAY, WEDNESDAY, THURSDAY, FRIDAY]"

definition is_available :: "Teacher \<Rightarrow> DayOfWeek \<Rightarrow> bool" where
  "is_available t d = (d \<notin> unavailable_days t)"

definition student_count :: "EGEPracticeGroup \<Rightarrow> int" where
  "student_count g = int (length (group_students g))"

definition add_lesson :: "Schedule \<Rightarrow> Lesson \<Rightarrow> Schedule" where
  "add_lesson s l = s\<lparr>lessons := lessons s @ [l]\<rparr>"

definition is_classroom_busy :: "Schedule \<Rightarrow> Classroom \<Rightarrow> TimeSlot \<Rightarrow> bool" where
  "is_classroom_busy s c ts =
     list_ex (\<lambda>l. classroom l = Some c \<and> time_slot l = ts) (lessons s)"

text \<open>The 5 x 7 grid, days outermost, periods 1 to 7.\<close>

definition all_time_slots :: "TimeSlot list" where
  "all_time_slots =
     concat (map (\<lambda>d. map (\<lambda>n. \<lparr>day = d, lesson_number = n\<rparr>) [1..7]) all_days)"

section \<open>Phase 1: exam-practice placement (schedule\_generator.py)\<close>

record ScheduleGenerator =
  loader :: Loader
  schedule :: Schedule
  ege_slots :: "TimeSlot list"

definition new_generator :: "Loader \<Rightarrow> ScheduleGenerator" where
  "new_generator ld = \<lparr>loader = ld, schedule = \<lparr>lessons = []\<rparr>, ege_slots = []\<rparr>"

text \<open>The period band of \<open>evaluate_ege_slot\<close>: the if/elif chain on the lesson number.\<close>

definition ege_period_term :: "int \<Rightarrow> real" where
  "ege_period_term n =
     (if n = 1 then - 30 else if n = 7 then - 20 else if 2 \<le> n \<and> n \<le> 4 then 20 else 0)"

text \<open>\<open>evaluate_ege_slot\<close>; \<open>jitter\<close> is the value drawn by \<open>random.uniform(-5, 5)\<close>.
  The division raises when the loader has no teacher.\<close>

definition evaluate_ege_slot :: "Loader \<Rightarrow> TimeSlot \<Rightarrow> real \<Rightarrow> py_error + real" where
  "evaluate_ege_slot ld slot jitter =
     (let score = 100 + ege_period_term (lesson_number slot);
          available_teachers =
            length (filter (\<lambda>t. is_available t (day slot)) (map snd (teachers ld)))
      in if length (teachers ld) = 0 then Inl ZeroDivisionError
         else Inr (score + (real available_teachers / real (length (teachers ld))) * 50 + jitter))"

text \<open>\<open>find_available_classroom\<close>: the free rooms that are large enough, stably sorted
  by capacity; the first one, or None.\<close>

definition find_available_classroom ::
  "Loader \<Rightarrow> Schedule \<Rightarrow> TimeSlot \<Rightarrow> int \<Rightarrow> Classroom option" where
  "find_available_classroom ld s ts required_capacity =
     (let available_classrooms =
            filter (\<lambda>c. capacity c \<ge> required_capacity \<and> \<not> is_classroom_busy s c ts)
              (map snd (classrooms ld))
      in case sort_key capacity available_classrooms of
           [] \<Rightarrow> None
         | c # _ \<Rightarrow> Some c)"

definition ege_subject_prefix :: string where
  "ege_subject_prefix = [CHR 0xD0, CHR 0x9F, CHR 0xD1, CHR 0x80, CHR 0xD0, CHR 0xB0, CHR 0xD0,
     CHR 0xBA, CHR 0xD1, CHR 0x82, CHR 0xD0, CHR 0xB8, CHR 0xD0, CHR 0xBA, CHR 0xD1, CHR 0x83,
     CHR 0xD0, CHR 0xBC, CHR 0x20, CHR 0xD0, CHR 0x95, CHR 0xD0, CHR 0x93, CHR 0xD0, CHR 0xAD,
     CHR 0x3A, CHR 0x20]"

definition ege_label_prefix :: string where
  "ege_label_prefix = [CHR 0xD0, CHR 0x95, CHR 0xD0, CHR 0x93, CHR 0xD0, CHR 0xAD, CHR 0x2D]"

text \<open>The body of the inner loop of \<open>place_ege_practices\<close> for one group at one slot.\<close>

definition place_group :: "Loader \<Rightarrow> nat \<Rightarrow> TimeSlot \<Rightarrow> Schedule \<Rightarrow> EGEPracticeGroup \<Rightarrow> Schedule" where
  "place_group ld slot_idx ts s g =
     (if int slot_idx \<ge> group_hours_per_week g then s
      else if \<not> is_available (group_teacher g) (day ts) then s
      else add_lesson s
        \<lparr>subject = ege_subject_prefix @ group_subject g,
         teacher = group_teacher g,
         class_or_group = ege_label_prefix @ group_subject g,
         classroom = find_available_classroom ld s ts (student_count g),
         time_slot = ts,
         is_ege_practice = True,
         students = group_students g\<rparr>)"

definition place_slot :: "Loader \<Rightarrow> Schedule \<Rightarrow> nat \<times> TimeSlot \<Rightarrow> Schedule" where
  "place_slot ld s p = foldl (place_group ld (fst p) (snd p)) s (ege_groups ld)"

definition place_groups_in_slots :: "Loader \<Rightarrow> Schedule \<Rightarrow> TimeSlot list \<Rightarrow> Schedule" where
  "place_groups_in_slots ld s slots = foldl (place_slot ld) s (enumerate 0 slots)"

text \<open>\<open>find_ege_practice_slots\<close>. Every slot of the grid is scored (one jitter draw per
  slot), the slots are sorted by score, best first (Python's sort is stable, also with
  \<open>reverse=True\<close>), then selected with at most two per day, then topped up.\<close>

fun score_slots :: "Loader \<Rightarrow> (TimeSlot \<Rightarrow> real) \<Rightarrow> TimeSlot list \<Rightarrow> py_error + (TimeSlot \<times> real) list" where
  "score_slots ld jitter [] = Inr []"
| "score_slots ld jitter (slot # rest) =
     (case evaluate_ege_slot ld slot (jitter slot) of
        Inl e \<Rightarrow> Inl e
      | Inr score \<Rightarrow>
          (case score_slots ld jitter rest of
             Inl e \<Rightarrow> Inl e
           | Inr scored \<Rightarrow> Inr ((slot, score) # scored)))"

fun select_spread :: "int \<Rightarrow> TimeSlot list \<Rightarrow> TimeSlot list \<Rightarrow> TimeSlot list" where
  "select_spread num_slots_needed [] selected_slots = selected_slots"
| "select_spread num_slots_needed (slot # rest) selected_slots =
     (if int (length selected_slots) \<ge> num_slots_needed then selected_slots
      else if length (filter (\<lambda>s. day s = day slot) selected_slots) \<ge> 2
        then select_spread num_slots_needed rest selected_slots
      else select_spread num_slots_needed rest (selected_slots @ [slot]))"

fun fill_remaining :: "int \<Rightarrow> TimeSlot list \<Rightarrow> TimeSlot list \<Rightarrow> TimeSlot list" where
  "fill_remaining num_slots_needed [] selected_slots = selected_slots"
| "fill_remaining num_slots_needed (slot # rest) selected_slots =
     (if slot \<notin> set selected_slots
      then (if int (length (selected_slots @ [slot])) \<ge> num_slots_needed
            then selected_slots @ [slot]
            else fill_remaining num_slots_needed rest (selected_slots @ [slot]))
      else fill_remaining num_slots_needed rest selected_slots)"

definition find_ege_practice_slots ::
  "Loader \<Rightarrow> (TimeSlot \<Rightarrow> real) \<Rightarrow> int \<Rightarrow> py_error + TimeSlot list" where
  "find_ege_practice_slots ld jitter num_slots_needed =
     (case score_slots ld jitter all_time_slots of
        Inl e \<Rightarrow> Inl e
      | Inr slot_scores \<Rightarrow>
          (let sorted_slots = map fst (sort_key (\<lambda>p. - snd p) slot_scores);
               selected_slots = select_spread num_slots_needed sorted_slots []
           in if int (length selected_slots) < num_slots_needed
              then Inr (fill_remaining num_slots_needed sorted_slots selected_slots)
              else Inr selected_slots))"

definition place_ege_practices ::
  "ScheduleGenerator \<Rightarrow> (TimeSlot \<Rightarrow> real) \<Rightarrow> py_error + ScheduleGenerator" where
  "place_ege_practices g jitter =
     (if ege_groups (loader g) = [] then Inr g
      else
        (let max_hours = Max (set (map group_hours_per_week (ege_groups (loader g))))
         in case find_ege_practice_slots (loader g) jitter max_hours of
              Inl e \<Rightarrow> Inl e
            | Inr slots \<Rightarrow>
                Inr (g\<lparr>ege_slots := slots,
                       schedule := place_groups_in_slots (loader g) (schedule g) slots\<rparr>)))"

section \<open>Phase 2: mandatory subjects (phase2\_mandatory.py)\<close>

text \<open>A Python \<open>dict\<close> from time slots to lessons, in insertion order; \<open>d[k] = v\<close> is
  \<open>AList.update k v d\<close>, \<open>k in d\<close> is membership in \<open>dict_keys d\<close>.\<close>

type_synonym slot_dict = "(TimeSlot \<times> Lesson) list"

definition dict_keys :: "('k \<times> 'v) list \<Rightarrow> 'k list" where
  "dict_keys d = map fst d"

record Conflict =
  conflict_subject :: string
  conflict_class :: string
  conflict_teacher :: string
  conflict_reason :: string

record Stats =
  total_required :: int
  placed :: int
  failed :: int
  conflicts :: "Conflict list"

text \<open>The placer object. The three caches are \<open>defaultdict(dict)\<close>: a missing key reads as
  the empty dictionary, and the code never iterates over their outer keys.\<close>

record Phase2MandatoryPlacer =
  p2_schedule :: Schedule
  p2_loader :: Loader
  p2_ege_slots :: "TimeSlot set"
  all_slots :: "TimeSlot list"
  stats :: Stats
  teacher_schedule :: "string \<Rightarrow> slot_dict"
  class_schedule :: "string \<Rightarrow> slot_dict"
  classroom_schedule :: "string \<Rightarrow> slot_dict"

definition update_cache :: "Phase2MandatoryPlacer \<Rightarrow> Lesson \<Rightarrow> Phase2MandatoryPlacer" where
  "update_cache p l =
     (let p1 = p\<lparr>teacher_schedule := (teacher_schedule p)
                  (name (teacher l) :=
                     AList.update (time_slot l) l (teacher_schedule p (name (teacher l))))\<rparr>;
          p2 = p1\<lparr>class_schedule := (class_schedule p1)
                  (class_or_group l :=
                     AList.update (time_slot l) l (class_schedule p1 (class_or_group l)))\<rparr>
      in case classroom l of
           None \<Rightarrow> p2
         | Some c \<Rightarrow>
             p2\<lparr>classroom_schedule := (classroom_schedule p2)
                  (number c :=
                     AList.update (time_slot l) l (classroom_schedule p2 (number c)))\<rparr>)"

text \<open>\<open>_build_cache\<close> runs the same three updates for every lesson already placed.\<close>

definition build_cache :: "Phase2MandatoryPlacer \<Rightarrow> Phase2MandatoryPlacer" where
  "build_cache p = foldl update_cache p (lessons (p2_schedule p))"

definition new_placer :: "Schedule \<Rightarrow> Loader \<Rightarrow> TimeSlot list \<Rightarrow> Phase2MandatoryPlacer" where
  "new_placer s ld slots =
     build_cache
       \<lparr>p2_schedule = s, p2_loader = ld, p2_ege_slots = set slots,
        all_slots = all_time_slots,
        stats = \<lparr>total_required = 0, placed = 0, failed = 0, conflicts = []\<rparr>,
        teacher_schedule = (\<lambda>_. []), class_schedule = (\<lambda>_. []),
        classroom_schedule = (\<lambda>_. [])\<rparr>"

text \<open>\<open>_is_hard_subject\<close>: a keyword occurs in the lower-cased name. \<open>lower\<close> stands for
  Python's \<open>str.lower\<close> on the encoded text.\<close>

definition hard_keywords :: "string list" where
  "hard_keywords =
    [[CHR 0xD0, CHR 0xBC, CHR 0xD0, CHR 0xB0, CHR 0xD1, CHR 0x82, CHR 0xD0, CHR 0xB5, CHR 0xD0,
      CHR 0xBC, CHR 0xD0, CHR 0xB0, CHR 0xD1, CHR 0x82, CHR 0xD0, CHR 0xB8, CHR 0xD0, CHR 0xBA,
      CHR 0xD0, CHR 0xB0],
     [CHR 0xD0, CHR 0xB0, CHR 0xD0, CHR 0xBB, CHR 0xD0, CHR 0xB3, CHR 0xD0, CHR 0xB5, CHR 0xD0,
      CHR 0xB1, CHR 0xD1, CHR 0x80, CHR 0xD0, CHR 0xB0],
     [CHR 0xD0, CHR 0xB3, CHR 0xD0, CHR 0xB5, CHR 0xD0, CHR 0xBE, CHR 0xD0, CHR 0xBC, CHR 0xD0,
      CHR 0xB5, CHR 0xD1, CHR 0x82, CHR 0xD1, CHR 0x80, CHR 0xD0, CHR 0xB8, CHR 0xD1, CHR 0x8F],
     [CHR 0xD1, CHR 0x80, CHR 0xD1, CHR 0x83, CHR 0xD1, CHR 0x81, CHR 0xD1, CHR 0x81, CHR 0xD0,
      CHR 0xBA, CHR 0xD0, CHR 0xB8, CHR 0xD0, CHR 0xB9],
     [CHR 0xD1, CHR 0x84, CHR 0xD0, CHR 0xB8, CHR 0xD0, CHR 0xB7, CHR 0xD0, CHR 0xB8, CHR 0xD0,
      CHR 0xBA, CHR 0xD0, CHR 0xB0],
     [CHR 0xD1, CHR 0x85, CHR 0xD0, CHR 0xB8, CHR 0xD0, CHR 0xBC, CHR 0xD0, CHR 0xB8, CHR 0xD1,
      CHR 0x8F],
     [CHR 0xD0, CHR 0xB0, CHR 0xD0, CHR 0xBD, CHR 0xD0, CHR 0xB3, CHR 0xD0, CHR 0xBB, CHR 0xD0,
      CHR 0xB8, CHR 0xD0, CHR 0xB9, CHR 0xD1, CHR 0x81, CHR 0xD0, CHR 0xBA, CHR 0xD0, CHR 0xB8,
      CHR 0xD0, CHR 0xB9],
     [CHR 0xD0, CHR 0xBD, CHR 0xD0, CHR 0xB5, CHR 0xD0, CHR 0xBC, CHR 0xD0, CHR 0xB5, CHR 0xD1,
      CHR 0x86, CHR 0xD0, CHR 0xBA, CHR 0xD0, CHR 0xB8, CHR 0xD0, CHR 0xB9],
     [CHR 0xD1, CHR 0x84, CHR 0xD1, CHR 0x80, CHR 0xD0, CHR 0xB0, CHR 0xD0, CHR 0xBD, CHR 0xD1,
      CHR 0x86, CHR 0xD1, CHR 0x83, CHR 0xD0, CHR 0xB7, CHR 0xD1, CHR 0x81, CHR 0xD0, CHR 0xBA,
      CHR 0xD0, CHR 0xB8, CHR 0xD0, CHR 0xB9]]"

definition is_hard_subject :: "(string \<Rightarrow> string) \<Rightarrow> Subject \<Rightarrow> bool" where
  "is_hard_subject lower subj =
     list_ex (\<lambda>keyword. sublist keyword (lower (subject_name subj))) hard_keywords"

definition is_slot_available :: "Phase2MandatoryPlacer \<Rightarrow> TimeSlot \<Rightarrow> Subject \<Rightarrow> bool" where
  "is_slot_available p slot subj =
     (if \<not> is_available (subject_teacher subj) (day slot) then False
      else if slot \<in> set (dict_keys (teacher_schedule p (name (subject_teacher subj)))) then False
      else if list_ex (\<lambda>class_name. slot \<in> set (dict_keys (class_schedule p class_name)))
                (classes subj) then False
      else if slot \<in> p2_ege_slots p then False
      else True)"

text \<open>The loop \<open>gaps += all_lessons[i + 1] - all_lessons[i] - 1\<close> over consecutive pairs.\<close>

fun adjacent_gaps :: "int list \<Rightarrow> int" where
  "adjacent_gaps (a # b # rest) = (b - a - 1) + adjacent_gaps (b # rest)"
| "adjacent_gaps _ = 0"

text \<open>\<open>_evaluate_slot\<close>. The source computes in floating point; every value it handles is
  an integer of small magnitude, which floating point represents exactly, so the score is
  an \<open>int\<close> here.\<close>

definition evaluate_slot :: "Phase2MandatoryPlacer \<Rightarrow> TimeSlot \<Rightarrow> Subject \<Rightarrow> bool \<Rightarrow> int" where
  "evaluate_slot p slot subj is_hard =
     (if \<not> is_slot_available p slot subj then 0
      else
        (let n = lesson_number slot;
             score1 = 100 +
               (if is_hard
                then (if 2 \<le> n \<and> n \<le> 4 then 30 else if n = 1 then - 15
                      else if n \<ge> 6 then - 25 else 0)
                else (if n \<ge> 5 then 10 else if n = 1 then - 5 else 0));
             score2 = score1 + (if n = 1 then - 10 else 0) + (if n = 7 then - 20 else 0);
             score3 =
               (case classes subj of
                  [] \<Rightarrow> score2
                | c # _ \<Rightarrow>
                    if c = [] then score2
                    else score2 - int (length (filter (\<lambda>ts. day ts = day slot)
                                          (dict_keys (class_schedule p c)))) * 3);
             teacher_name = name (subject_teacher subj);
             teacher_slots = filter (\<lambda>ts. day ts = day slot)
                               (dict_keys (teacher_schedule p teacher_name));
             score4 =
               (if teacher_slots \<noteq> []
                then score3 - adjacent_gaps (sort (map lesson_number teacher_slots @ [n])) * 5
                else score3);
             teacher_days = set (map day (dict_keys (teacher_schedule p teacher_name)));
             score5 = (if day slot \<notin> teacher_days then score4 + 5 else score4)
         in if slot \<in> p2_ege_slots p then 0 else score5))"

definition evaluate_all_slots ::
  "Phase2MandatoryPlacer \<Rightarrow> Subject \<Rightarrow> bool \<Rightarrow> (int \<times> TimeSlot) list" where
  "evaluate_all_slots p subj is_hard =
     sort_key (\<lambda>x. - fst x)
       (filter (\<lambda>x. fst x > 0)
          (map (\<lambda>slot. (evaluate_slot p slot subj is_hard, slot)) (all_slots p)))"

definition find_best_slot ::
  "Phase2MandatoryPlacer \<Rightarrow> (int \<times> TimeSlot) list \<Rightarrow> Subject \<Rightarrow> DayOfWeek set \<Rightarrow> TimeSlot option" where
  "find_best_slot p scored_slots subj days_used =
     (case find (\<lambda>x. day (snd x) \<notin> days_used \<and> is_slot_available p (snd x) subj) scored_slots of
        Some x \<Rightarrow> Some (snd x)
      | None \<Rightarrow>
          (case find (\<lambda>x. is_slot_available p (snd x) subj) scored_slots of
             Some x \<Rightarrow> Some (snd x)
           | None \<Rightarrow> None))"

definition find_free_classroom :: "Phase2MandatoryPlacer \<Rightarrow> TimeSlot \<Rightarrow> Classroom option" where
  "find_free_classroom p slot =
     find (\<lambda>c. slot \<notin> set (dict_keys (classroom_schedule p (number c))))
       (map snd (classrooms (p2_loader p)))"

text \<open>\<open>_find_classroom\<close>: the teacher's home room when it is set (a non-empty string),
  known to the loader and free; else the first free room in dictionary order.\<close>

definition find_classroom :: "Phase2MandatoryPlacer \<Rightarrow> Subject \<Rightarrow> TimeSlot \<Rightarrow> Classroom option" where
  "find_classroom p subj slot =
     (case home_classroom (subject_teacher subj) of
        None \<Rightarrow> find_free_classroom p slot
      | Some h \<Rightarrow>
          if h = [] then find_free_classroom p slot
          else
            (case map_of (classrooms (p2_loader p)) h of
               None \<Rightarrow> find_free_classroom p slot
             | Some home_room \<Rightarrow>
                 if slot \<notin> set (dict_keys (classroom_schedule p (number home_room)))
                 then Some home_room
                 else find_free_classroom p slot))"

text \<open>The local variables of \<open>_place_subject\<close> that its loop over the hours changes.\<close>

record place_state =
  placer :: Phase2MandatoryPlacer
  placed_count :: int
  days_used :: "DayOfWeek set"
  scored_slots :: "(int \<times> TimeSlot) list"

definition subject_class_name :: "Subject \<Rightarrow> string" where
  "subject_class_name subj = (case classes subj of [] \<Rightarrow> ''unknown'' | c # _ \<Rightarrow> c)"

text \<open>One pass of the loop \<open>for _ in range(subject.hours_per_week)\<close>.\<close>

definition place_hour :: "Subject \<Rightarrow> place_state \<Rightarrow> place_state" where
  "place_hour subj st =
     (let p = placer st in
      case find_best_slot p (scored_slots st) subj (days_used st) of
        None \<Rightarrow>
          st\<lparr>placer := p\<lparr>stats := (stats p)
                \<lparr>failed := failed (stats p) + 1,
                 conflicts := conflicts (stats p) @
                   [\<lparr>conflict_subject = subject_name subj,
                     conflict_class = subject_class_name subj,
                     conflict_teacher = name (subject_teacher subj),
                     conflict_reason = ''no_available_slot''\<rparr>]\<rparr>\<rparr>\<rparr>
      | Some best_slot \<Rightarrow>
          (let lesson =
                 \<lparr>subject = subject_name subj,
                  teacher = subject_teacher subj,
                  class_or_group = subject_class_name subj,
                  classroom = find_classroom p subj best_slot,
                  time_slot = best_slot,
                  is_ege_practice = False,
                  students = []\<rparr>;
               p1 = update_cache (p\<lparr>p2_schedule := add_lesson (p2_schedule p) lesson\<rparr>) lesson;
               p2 = p1\<lparr>stats := (stats p1)\<lparr>placed := placed (stats p1) + 1\<rparr>\<rparr>
           in \<lparr>placer = p2,
               placed_count = placed_count st + 1,
               days_used = insert (day best_slot) (days_used st),
               scored_slots = filter (\<lambda>x. snd x \<noteq> best_slot) (scored_slots st)\<rparr>))"

definition place_subject_state :: "(string \<Rightarrow> string) \<Rightarrow> Phase2MandatoryPlacer \<Rightarrow> Subject \<Rightarrow> place_state" where
  "place_subject_state lower p subj =
     \<lparr>placer = p, placed_count = 0, days_used = {},
      scored_slots = evaluate_all_slots p subj (is_hard_subject lower subj)\<rparr>"

text \<open>\<open>_place_subject\<close>: the placer after the loop, and the number of lessons placed.\<close>

definition place_subject ::
  "(string \<Rightarrow> string) \<Rightarrow> Phase2MandatoryPlacer \<Rightarrow> Subject \<Rightarrow> Phase2MandatoryPlacer \<times> int" where
  "place_subject lower p subj =
     (let st = (place_hour subj ^^ nat (hours_per_week subj)) (place_subject_state lower p subj)
      in (placer st, placed_count st))"

definition priority_score :: "(string \<Rightarrow> string) \<Rightarrow> Subject \<Rightarrow> int \<times> int \<times> int \<times> string" where
  "priority_score lower subj =
     (- (if is_hard_subject lower subj then 1 else 0),
      - hours_per_week subj,
      - int (card (unavailable_days (subject_teacher subj))),
      subject_name subj)"

definition sort_by_priority :: "(string \<Rightarrow> string) \<Rightarrow> Subject list \<Rightarrow> Subject list" where
  "sort_by_priority lower subjs = sort_key (priority_score lower) subjs"

definition dict_append :: "'k \<Rightarrow> 'v \<Rightarrow> ('k \<times> 'v list) list \<Rightarrow> ('k \<times> 'v list) list" where
  "dict_append k v d =
     (case map_of d k of
        None \<Rightarrow> d @ [(k, [v])]
      | Some vs \<Rightarrow> AList.update k (vs @ [v]) d)"

definition group_by_class :: "Subject list \<Rightarrow> (string \<times> Subject list) list" where
  "group_by_class subjs =
     foldl (\<lambda>by_class subj. foldl (\<lambda>d class_name. dict_append class_name subj d) by_class (classes subj))
       [] subjs"

definition place_class ::
  "(string \<Rightarrow> string) \<Rightarrow> Phase2MandatoryPlacer \<Rightarrow> string \<times> Subject list \<Rightarrow> Phase2MandatoryPlacer" where
  "place_class lower p entry = foldl (\<lambda>q subj. fst (place_subject lower q subj)) p (snd entry)"

definition place_all_mandatory_subjects ::
  "(string \<Rightarrow> string) \<Rightarrow> Phase2MandatoryPlacer \<Rightarrow> Phase2MandatoryPlacer" where
  "place_all_mandatory_subjects lower p =
     (let mandatory_subjects =
            filter (\<lambda>s. subject_type s = MANDATORY) (loader_subjects (p2_loader p));
          total_hours = sum_list (map hours_per_week mandatory_subjects);
          p1 = p\<lparr>stats := (stats p)\<lparr>total_required := total_hours\<rparr>\<rparr>;
          sorted_subjects = sort_by_priority lower mandatory_subjects;
          subjects_by_class = group_by_class sorted_subjects
      in foldl (place_class lower) p1 subjects_by_class)"

section \<open>Phase 3: simulated annealing (phase3\_optimization.py)\<close>

text \<open>
  The optimizer mutates the \<open>time_slot\<close> of lesson objects that the schedule and the
  indices share. The list \<open>p3_lessons\<close> is the store: position \<open>r\<close> holds the current
  value of the \<open>r\<close>-th lesson object of \<open>schedule.lessons\<close>, and the indices hold
  positions. \<open>==\<close>, \<open>in\<close> and \<open>remove\<close> compare lesson values, as the dataclass does.
  \<open>lessons_by_slot\<close> is a \<open>defaultdict(list)\<close> that is only looked up, so it is a function
  with default \<open>[]\<close>; the other two indices are iterated, so they are association lists.
  \<open>best_schedule\<close> and \<open>best_metric\<close> are assigned at the start of \<open>optimize\<close> before
  they are read, so they live in the loop state below.
\<close>

record OptStats =
  initial_metric :: real
  final_metric :: real
  improvements :: int
  iterations :: int
  accepted_worse :: int

record Phase3Optimizer =
  p3_lessons :: "Lesson list"
  initial_temperature :: real
  cooling_rate :: real
  min_temperature :: real
  opt_stats :: OptStats
  lessons_by_teacher :: "(string \<times> nat list) list"
  lessons_by_class :: "(string \<times> nat list) list"
  lessons_by_slot :: "TimeSlot \<Rightarrow> nat list"

definition index_lesson :: "Phase3Optimizer \<Rightarrow> nat \<Rightarrow> Phase3Optimizer" where
  "index_lesson opt r =
     (let l = p3_lessons opt ! r
      in opt\<lparr>lessons_by_teacher := dict_append (name (teacher l)) r (lessons_by_teacher opt),
             lessons_by_class := dict_append (class_or_group l) r (lessons_by_class opt),
             lessons_by_slot := (lessons_by_slot opt)
               (time_slot l := lessons_by_slot opt (time_slot l) @ [r])\<rparr>)"

definition build_indices :: "Phase3Optimizer \<Rightarrow> Phase3Optimizer" where
  "build_indices opt =
     foldl index_lesson
       (opt\<lparr>lessons_by_teacher := [], lessons_by_class := [], lessons_by_slot := (\<lambda>_. [])\<rparr>)
       [0..<length (p3_lessons opt)]"

definition new_optimizer :: "Schedule \<Rightarrow> Phase3Optimizer" where
  "new_optimizer s =
     build_indices
       \<lparr>p3_lessons = lessons s,
        initial_temperature = 100, cooling_rate = 995 / 1000, min_temperature = 1 / 10,
        opt_stats = \<lparr>initial_metric = 0, final_metric = 0, improvements = 0,
                     iterations = 0, accepted_worse = 0\<rparr>,
        lessons_by_teacher = [], lessons_by_class = [], lessons_by_slot = (\<lambda>_. [])\<rparr>"

subsection \<open>The quality metric\<close>

definition day_refs :: "Lesson list \<Rightarrow> nat list \<Rightarrow> DayOfWeek \<Rightarrow> nat list" where
  "day_refs ls refs d = filter (\<lambda>r. day (time_slot (ls ! r)) = d) refs"

definition day_gaps :: "Lesson list \<Rightarrow> nat list \<Rightarrow> DayOfWeek \<Rightarrow> int" where
  "day_gaps ls refs d =
     (let day_lessons = day_refs ls refs d
      in if length day_lessons < 2 then 0
         else adjacent_gaps (sort (map (\<lambda>r. lesson_number (time_slot (ls ! r))) day_lessons)))"

definition count_teacher_gaps :: "Phase3Optimizer \<Rightarrow> int" where
  "count_teacher_gaps opt =
     sum_list (map (\<lambda>entry. sum_list (map (day_gaps (p3_lessons opt) (snd entry)) all_days))
       (lessons_by_teacher opt))"

definition count_class_gaps :: "Phase3Optimizer \<Rightarrow> int" where
  "count_class_gaps opt =
     sum_list (map (\<lambda>entry. sum_list (map (day_gaps (p3_lessons opt) (snd entry)) all_days))
       (filter (\<lambda>entry. \<not> prefix ege_label_prefix (fst entry)) (lessons_by_class opt)))"

text \<open>The optimizer's own keyword list: the first seven of Phase 2's.\<close>

definition hard_keywords_opt :: "string list" where
  "hard_keywords_opt = take 7 hard_keywords"

definition badly_timed_hard :: "(string \<Rightarrow> string) \<Rightarrow> Lesson \<Rightarrow> bool" where
  "badly_timed_hard lower l =
     (list_ex (\<lambda>kw. sublist kw (lower (subject l))) hard_keywords_opt
      \<and> lesson_number (time_slot l) \<notin> set [2, 3, 4])"

definition count_suboptimal_timing :: "(string \<Rightarrow> string) \<Rightarrow> Phase3Optimizer \<Rightarrow> int" where
  "count_suboptimal_timing lower opt =
     int (length (filter (\<lambda>l. \<not> is_ege_practice l \<and> badly_timed_hard lower l) (p3_lessons opt)))"

definition calculate_daily_variance :: "Phase3Optimizer \<Rightarrow> real" where
  "calculate_daily_variance opt =
     (let daily_counts =
            map (\<lambda>d. length (filter (\<lambda>l. day (time_slot l) = d) (p3_lessons opt))) all_days;
          mean = real (sum_list daily_counts) / real (length daily_counts);
          variance = sum_list (map (\<lambda>c. (real c - mean)\<^sup>2) daily_counts)
                       / real (length daily_counts)
      in if daily_counts = [] then 0 else sqrt variance)"

definition day_spread :: "Lesson list \<Rightarrow> nat list \<Rightarrow> DayOfWeek \<Rightarrow> int" where
  "day_spread ls refs d =
     (let day_lessons = day_refs ls refs d;
          lesson_numbers = map (\<lambda>r. lesson_number (time_slot (ls ! r))) day_lessons
      in if length day_lessons < 2 then 0
         else Max (set lesson_numbers) - Min (set lesson_numbers) + 1
                - int (length lesson_numbers))"

definition calculate_schedule_spread :: "Phase3Optimizer \<Rightarrow> int" where
  "calculate_schedule_spread opt =
     sum_list (map (\<lambda>entry. sum_list (map (day_spread (p3_lessons opt) (snd entry)) all_days))
       (filter (\<lambda>entry. \<not> prefix ege_label_prefix (fst entry)) (lessons_by_class opt)))"

definition calculate_quality_metric :: "(string \<Rightarrow> string) \<Rightarrow> Phase3Optimizer \<Rightarrow> real" where
  "calculate_quality_metric lower opt =
     real_of_int (count_teacher_gaps opt * 4)
     + real_of_int (count_class_gaps opt * 4)
     + real_of_int (count_suboptimal_timing lower opt * 4)
     + calculate_daily_variance opt * 3
     + real_of_int (calculate_schedule_spread opt * 2)"

subsection \<open>Swaps\<close>

definition can_swap :: "Phase3Optimizer \<Rightarrow> nat \<Rightarrow> nat \<Rightarrow> bool" where
  "can_swap opt i j =
     (let ls = p3_lessons opt; lesson1 = ls ! i; lesson2 = ls ! j;
          slot1 = time_slot lesson1; slot2 = time_slot lesson2;
          at1 = lessons_by_slot opt slot1; at2 = lessons_by_slot opt slot2
      in if slot1 = slot2 then False
         else if \<not> is_available (teacher lesson1) (day slot2) then False
         else if list_ex (\<lambda>r. ls ! r \<noteq> lesson2
                    \<and> name (teacher (ls ! r)) = name (teacher lesson1)) at2 then False
         else if \<not> is_available (teacher lesson2) (day slot1) then False
         else if list_ex (\<lambda>r. ls ! r \<noteq> lesson1
                    \<and> name (teacher (ls ! r)) = name (teacher lesson2)) at1 then False
         else if list_ex (\<lambda>r. ls ! r \<noteq> lesson2
                    \<and> class_or_group (ls ! r) = class_or_group lesson1) at2 then False
         else if list_ex (\<lambda>r. ls ! r \<noteq> lesson1
                    \<and> class_or_group (ls ! r) = class_or_group lesson2) at1 then False
         else if classroom lesson1 \<noteq> None \<and> classroom lesson2 \<noteq> None
                 \<and> list_ex (\<lambda>r. ls ! r \<noteq> lesson2
                      \<and> classroom (ls ! r) = classroom lesson1) at2 then False
         else if classroom lesson1 \<noteq> None \<and> classroom lesson2 \<noteq> None
                 \<and> list_ex (\<lambda>r. ls ! r \<noteq> lesson1
                      \<and> classroom (ls ! r) = classroom lesson2) at1 then False
         else True)"

definition find_swap_candidates :: "Phase3Optimizer \<Rightarrow> nat \<Rightarrow> nat list" where
  "find_swap_candidates opt i =
     (let ls = p3_lessons opt
      in filter (\<lambda>j. \<not> (ls ! j = ls ! i)
                   \<and> \<not> (is_ege_practice (ls ! i) \<and> is_ege_practice (ls ! j))
                   \<and> can_swap opt i j)
           [0..<length ls])"

text \<open>\<open>lesson in xs\<close> and \<open>xs.remove(lesson)\<close> on a list of lesson objects.\<close>

definition lesson_in :: "Lesson list \<Rightarrow> nat \<Rightarrow> nat list \<Rightarrow> bool" where
  "lesson_in ls r refs = list_ex (\<lambda>x. ls ! x = ls ! r) refs"

fun remove_lesson :: "Lesson list \<Rightarrow> nat \<Rightarrow> nat list \<Rightarrow> nat list" where
  "remove_lesson ls r [] = []"
| "remove_lesson ls r (x # xs) = (if ls ! x = ls ! r then xs else x # remove_lesson ls r xs)"

definition swap_lessons :: "Phase3Optimizer \<Rightarrow> nat \<Rightarrow> nat \<Rightarrow> Phase3Optimizer" where
  "swap_lessons opt i j =
     (let ls = p3_lessons opt;
          slot1 = time_slot (ls ! i);
          slot2 = time_slot (ls ! j);
          idx0 = lessons_by_slot opt;
          idx1 = (if lesson_in ls i (idx0 slot1)
                  then idx0(slot1 := remove_lesson ls i (idx0 slot1)) else idx0);
          idx2 = (if lesson_in ls j (idx1 slot2)
                  then idx1(slot2 := remove_lesson ls j (idx1 slot2)) else idx1);
          ls1 = ls[i := (ls ! i)\<lparr>time_slot := slot2\<rparr>];
          ls2 = ls1[j := (ls1 ! j)\<lparr>time_slot := slot1\<rparr>];
          idx3 = idx2(slot2 := idx2 slot2 @ [i]);
          idx4 = idx3(slot1 := idx3 slot1 @ [j])
      in opt\<lparr>p3_lessons := ls2, lessons_by_slot := idx4\<rparr>)"

subsection \<open>Choosing a swap\<close>

text \<open>\<open>xs.index(x)\<close>: the first position, or ValueError.\<close>

fun index_of :: "int \<Rightarrow> int list \<Rightarrow> py_error + nat" where
  "index_of x [] = Inl ValueError"
| "index_of x (y # ys) =
     (if y = x then Inr 0
      else (case index_of x ys of Inl e \<Rightarrow> Inl e | Inr k \<Rightarrow> Inr (Suc k)))"

definition dict_get_list :: "('k \<times> 'v list) list \<Rightarrow> 'k \<Rightarrow> 'v list" where
  "dict_get_list d k = (case map_of d k of None \<Rightarrow> [] | Some vs \<Rightarrow> vs)"

definition creates_gap :: "Phase3Optimizer \<Rightarrow> nat \<Rightarrow> py_error + bool" where
  "creates_gap opt r =
     (let ls = p3_lessons opt; lesson = ls ! r;
          teacher_lessons = dict_get_list (lessons_by_teacher opt) (name (teacher lesson));
          day_lessons = day_refs ls teacher_lessons (day (time_slot lesson))
      in if length day_lessons \<ge> 2
         then
           (let lesson_numbers = sort (map (\<lambda>x. lesson_number (time_slot (ls ! x))) day_lessons)
            in case index_of (lesson_number (time_slot lesson)) lesson_numbers of
                 Inl e \<Rightarrow> Inl e
               | Inr idx \<Rightarrow>
                   Inr ((idx > 0 \<and> lesson_numbers ! idx - lesson_numbers ! (idx - 1) > 1)
                        \<or> (idx < length lesson_numbers - 1
                           \<and> lesson_numbers ! (idx + 1) - lesson_numbers ! idx > 1)))
         else Inr False)"

fun problem_scan :: "(string \<Rightarrow> string) \<Rightarrow> Phase3Optimizer \<Rightarrow> nat list \<Rightarrow> py_error + nat list" where
  "problem_scan lower opt [] = Inr []"
| "problem_scan lower opt (r # rs) =
     (if is_ege_practice (p3_lessons opt ! r) then problem_scan lower opt rs
      else if badly_timed_hard lower (p3_lessons opt ! r)
        then (case problem_scan lower opt rs of Inl e \<Rightarrow> Inl e | Inr ps \<Rightarrow> Inr (r # ps))
      else
        (case creates_gap opt r of
           Inl e \<Rightarrow> Inl e
         | Inr b \<Rightarrow>
             (case problem_scan lower opt rs of
                Inl e \<Rightarrow> Inl e
              | Inr ps \<Rightarrow> Inr (if b then r # ps else ps))))"

definition find_problem_lessons :: "(string \<Rightarrow> string) \<Rightarrow> Phase3Optimizer \<Rightarrow> py_error + nat list" where
  "find_problem_lessons lower opt = problem_scan lower opt [0..<length (p3_lessons opt)]"

text \<open>The random numbers one iteration may draw: \<open>random.random()\<close> against 0.7, the
  index \<open>random.choice\<close> picks for the first lesson, the index it picks among the
  candidates, and \<open>random.random()\<close> for the Metropolis test.\<close>

record draws =
  focus_draw :: real
  first_choice :: nat
  second_choice :: nat
  accept_draw :: real

definition choice :: "'a list \<Rightarrow> nat \<Rightarrow> 'a" where
  "choice xs k = xs ! (k mod length xs)"

text \<open>\<open>_find_and_try_swap\<close>: None, or the two lessons, the metric after the swap and the
  optimizer with the swap applied.\<close>

definition find_and_try_swap ::
  "(string \<Rightarrow> string) \<Rightarrow> Phase3Optimizer \<Rightarrow> draws
     \<Rightarrow> py_error + (nat \<times> nat \<times> real \<times> Phase3Optimizer) option" where
  "find_and_try_swap lower opt d =
     (if length (p3_lessons opt) < 2 then Inr None
      else
        (case find_problem_lessons lower opt of
           Inl e \<Rightarrow> Inl e
         | Inr problem_lessons \<Rightarrow>
             (let lesson1 =
                    (if problem_lessons \<noteq> [] \<and> focus_draw d < 7 / 10
                     then choice problem_lessons (first_choice d)
                     else choice [0..<length (p3_lessons opt)] (first_choice d));
                  candidates = find_swap_candidates opt lesson1
              in if candidates = [] then Inr None
                 else
                   (let lesson2 = choice candidates (second_choice d);
                        opt' = swap_lessons opt lesson1 lesson2
                    in Inr (Some (lesson1, lesson2, calculate_quality_metric lower opt', opt'))))))"

subsection \<open>The annealing loop\<close>

definition acceptance_probability :: "real \<Rightarrow> real \<Rightarrow> real" where
  "acceptance_probability delta temperature =
     (if temperature \<le> 0 then 0 else exp (- delta / temperature))"

definition copy_schedule :: "Phase3Optimizer \<Rightarrow> Schedule" where
  "copy_schedule opt =
     \<lparr>lessons = map (\<lambda>l. l\<lparr>time_slot :=
                   \<lparr>day = day (time_slot l), lesson_number = lesson_number (time_slot l)\<rparr>\<rparr>)
                 (p3_lessons opt)\<rparr>"

record anneal_state =
  optimizer :: Phase3Optimizer
  best_schedule :: Schedule
  best_metric :: real
  current_metric :: real
  temperature :: real
  no_improvement_count :: nat

definition max_no_improvement :: nat where
  "max_no_improvement = 200"

text \<open>The body of \<open>for iteration in range(max_iterations)\<close>; the flag says whether the
  loop breaks after it.\<close>

definition anneal_step ::
  "(string \<Rightarrow> string) \<Rightarrow> draws \<Rightarrow> int \<Rightarrow> anneal_state \<Rightarrow> py_error + anneal_state \<times> bool" where
  "anneal_step lower d iteration st =
     (let opt1 = (optimizer st)
            \<lparr>opt_stats := (opt_stats (optimizer st))\<lparr>iterations := iteration + 1\<rparr>\<rparr>
      in case find_and_try_swap lower opt1 d of
           Inl e \<Rightarrow> Inl e
         | Inr None \<Rightarrow> Inr (st\<lparr>optimizer := opt1\<rparr>, False)
         | Inr (Some (lesson1, lesson2, new_metric, opt2)) \<Rightarrow>
             (let delta = new_metric - current_metric st;
                  st1 =
                    (if delta < 0
                     then
                       (let opt3 = opt2\<lparr>opt_stats := (opt_stats opt2)
                                     \<lparr>improvements := improvements (opt_stats opt2) + 1\<rparr>\<rparr>;
                            st' = st\<lparr>optimizer := opt3, current_metric := new_metric,
                                     no_improvement_count := 0\<rparr>
                        in if new_metric < best_metric st
                           then st'\<lparr>best_metric := new_metric,
                                   best_schedule := copy_schedule opt3\<rparr>
                           else st')
                     else if accept_draw d < acceptance_probability delta (temperature st)
                     then
                       st\<lparr>optimizer := opt2\<lparr>opt_stats := (opt_stats opt2)
                              \<lparr>accepted_worse := accepted_worse (opt_stats opt2) + 1\<rparr>\<rparr>,
                          current_metric := new_metric,
                          no_improvement_count := no_improvement_count st + 1\<rparr>
                     else
                       st\<lparr>optimizer := swap_lessons opt2 lesson1 lesson2,
                          no_improvement_count := no_improvement_count st + 1\<rparr>);
                  st2 = st1\<lparr>temperature :=
                          max (min_temperature (optimizer st1))
                              (temperature st1 * cooling_rate (optimizer st1))\<rparr>
              in Inr (st2, no_improvement_count st2 \<ge> max_no_improvement)))"

fun anneal ::
  "(string \<Rightarrow> string) \<Rightarrow> draws list \<Rightarrow> int \<Rightarrow> anneal_state \<Rightarrow> py_error + anneal_state" where
  "anneal lower [] iteration st = Inr st"
| "anneal lower (d # ds) iteration st =
     (case anneal_step lower d iteration st of
        Inl e \<Rightarrow> Inl e
      | Inr (st', stop) \<Rightarrow> if stop then Inr st' else anneal lower ds (iteration + 1) st')"

definition initial_state :: "(string \<Rightarrow> string) \<Rightarrow> Phase3Optimizer \<Rightarrow> anneal_state" where
  "initial_state lower opt =
     (let current = calculate_quality_metric lower opt
      in \<lparr>optimizer = opt\<lparr>opt_stats := (opt_stats opt)\<lparr>initial_metric := current\<rparr>\<rparr>,
          best_schedule = copy_schedule opt,
          best_metric = current,
          current_metric = current,
          temperature = initial_temperature opt,
          no_improvement_count = 0\<rparr>)"

text \<open>\<open>optimize\<close>, one record of draws per iteration (\<open>max_iterations\<close> is their number).
  At the end the best snapshot becomes the schedule and the indices are rebuilt; the
  schedule returned is \<open>p3_lessons\<close> of the resulting optimizer.\<close>

definition optimize ::
  "(string \<Rightarrow> string) \<Rightarrow> Phase3Optimizer \<Rightarrow> draws list \<Rightarrow> py_error + anneal_state" where
  "optimize lower opt ds =
     (case anneal lower ds 0 (initial_state lower opt) of
        Inl e \<Rightarrow> Inl e
      | Inr st \<Rightarrow>
          (let opt1 = build_indices ((optimizer st)\<lparr>p3_lessons := lessons (best_schedule st)\<rparr>);
               opt2 = opt1\<lparr>opt_stats := (opt_stats opt1)\<lparr>final_metric := best_metric st\<rparr>\<rparr>
           in Inr (st\<lparr>optimizer := opt2\<rparr>)))"

definition returned_schedule :: "anneal_state \<Rightarrow> Schedule" where
  "returned_schedule st = \<lparr>lessons = p3_lessons (optimizer st)\<rparr>"

section \<open>Properties of schedules\<close>

text \<open>Two lessons share a teacher, a class-or-group label, or an assigned classroom at one
  time slot.\<close>

definition share_teacher :: "Lesson \<Rightarrow> Lesson \<Rightarrow> bool" where
  "share_teacher a b = (teacher a = teacher b \<and> time_slot a = time_slot b)"

definition share_label :: "Lesson \<Rightarrow> Lesson \<Rightarrow> bool" where
  "share_label a b = (class_or_group a = class_or_group b \<and> time_slot a = time_slot b)"

definition share_classroom :: "Lesson \<Rightarrow> Lesson \<Rightarrow> bool" where
  "share_classroom a b =
     (classroom a \<noteq> None \<and> classroom a = classroom b \<and> time_slot a = time_slot b)"

text \<open>No two lessons of the list (two positions) are related by \<open>R\<close>.\<close>

definition no_two :: "(Lesson \<Rightarrow> Lesson \<Rightarrow> bool) \<Rightarrow> Lesson list \<Rightarrow> bool" where
  "no_two R ls = sorted_wrt (\<lambda>a b. \<not> R a b) ls"

definition teachers_available :: "Lesson list \<Rightarrow> bool" where
  "teachers_available ls = list_all (\<lambda>l. is_available (teacher l) (day (time_slot l))) ls"

text \<open>The lessons Phase 1 leaves in a fresh generator's schedule (none if it raises).\<close>

definition phase1_lessons :: "Loader \<Rightarrow> (TimeSlot \<Rightarrow> real) \<Rightarrow> Lesson list" where
  "phase1_lessons ld jitter =
     (case place_ege_practices (new_generator ld) jitter of
        Inl e \<Rightarrow> []
      | Inr g \<Rightarrow> lessons (schedule g))"

text \<open>The time slots at which the lessons of a list that satisfy \<open>P\<close> take place.\<close>

definition slots_where :: "(Lesson \<Rightarrow> bool) \<Rightarrow> Lesson list \<Rightarrow> TimeSlot set" where
  "slots_where P ls = time_slot ` {l \<in> set ls. P l}"

definition in_room :: "string \<Rightarrow> Lesson \<Rightarrow> bool" where
  "in_room r l = (case classroom l of None \<Rightarrow> False | Some c \<Rightarrow> number c = r)"

text \<open>The three caches of the Phase 2 placer hold exactly the occupied slots of a lesson
  list, each slot once: per teacher name, per label, per room number.\<close>

definition cache_exact :: "Phase2MandatoryPlacer \<Rightarrow> Lesson list \<Rightarrow> bool" where
  "cache_exact p ls \<longleftrightarrow>
     (\<forall>n. distinct (dict_keys (teacher_schedule p n))
        \<and> set (dict_keys (teacher_schedule p n)) = slots_where (\<lambda>l. name (teacher l) = n) ls)
   \<and> (\<forall>c. distinct (dict_keys (class_schedule p c))
        \<and> set (dict_keys (class_schedule p c)) = slots_where (\<lambda>l. class_or_group l = c) ls)
   \<and> (\<forall>r. distinct (dict_keys (classroom_schedule p r))
        \<and> set (dict_keys (classroom_schedule p r)) = slots_where (in_room r) ls)"

text \<open>A placer as its constructor leaves it and as placements keep it: the grid is the
  5 x 7 grid, every lesson lies on the grid, and the caches agree with the schedule.\<close>

definition placer_ok :: "Phase2MandatoryPlacer \<Rightarrow> bool" where
  "placer_ok p \<longleftrightarrow>
     all_slots p = all_time_slots
   \<and> (\<forall>l\<in>set (lessons (p2_schedule p)). time_slot l \<in> set all_time_slots)
   \<and> cache_exact p (lessons (p2_schedule p))"

text \<open>The lesson that \<open>_place_subject\<close> creates for a subject at a chosen slot.\<close>

definition hour_lesson :: "Phase2MandatoryPlacer \<Rightarrow> Subject \<Rightarrow> TimeSlot \<Rightarrow> Lesson" where
  "hour_lesson p subj b =
     \<lparr>subject = subject_name subj,
      teacher = subject_teacher subj,
      class_or_group = subject_class_name subj,
      classroom = find_classroom p subj b,
      time_slot = b,
      is_ege_practice = False,
      students = []\<rparr>"

text \<open>The loop state of \<open>_place_subject\<close> is sound: the placer is, the scored slots lie on
  the grid, and every grid slot still available for the subject is among them.\<close>

definition state_ok :: "Subject \<Rightarrow> place_state \<Rightarrow> bool" where
  "state_ok subj st \<longleftrightarrow>
     placer_ok (placer st)
   \<and> snd ` set (scored_slots st) \<subseteq> set all_time_slots
   \<and> (\<forall>slot\<in>set all_time_slots.
        is_slot_available (placer st) slot subj \<longrightarrow> slot \<in> snd ` set (scored_slots st))"




definition period_band :: "bool \<Rightarrow> int \<Rightarrow> int" where
  "period_band is_hard n =
     (if is_hard
      then (if 2 \<le> n \<and> n \<le> 4 then 30 else if n = 1 then - 15 else if n \<ge> 6 then - 25 else 0)
      else (if n \<ge> 5 then 10 else if n = 1 then - 5 else 0))"

definition fixed_penalty :: "int \<Rightarrow> int" where
  "fixed_penalty n = (if n = 1 then - 10 else 0) + (if n = 7 then - 20 else 0)"



text \<open>Freedom of a teacher, a cohort and a room at a slot, read off the schedule (teachers
  by name, rooms by number, as the caches key them).\<close>

definition teacher_free :: "Lesson list \<Rightarrow> Teacher \<Rightarrow> TimeSlot \<Rightarrow> bool" where
  "teacher_free ls t slot = (\<not> list_ex (\<lambda>l. name (teacher l) = name t \<and> time_slot l = slot) ls)"

definition cohort_free :: "Lesson list \<Rightarrow> string \<Rightarrow> TimeSlot \<Rightarrow> bool" where
  "cohort_free ls c slot = (\<not> list_ex (\<lambda>l. class_or_group l = c \<and> time_slot l = slot) ls)"

definition room_free :: "Lesson list \<Rightarrow> Classroom \<Rightarrow> TimeSlot \<Rightarrow> bool" where
  "room_free ls c slot = (\<not> list_ex (\<lambda>l. in_room (number c) l \<and> time_slot l = slot) ls)"

text \<open>A legal slot for a subject in the current schedule: the teacher is available that day
  and free, every cohort of the subject is free, and the slot is not reserved for exam
  practice.\<close>

definition legal_slot :: "Phase2MandatoryPlacer \<Rightarrow> Subject \<Rightarrow> TimeSlot \<Rightarrow> bool" where
  "legal_slot p subj slot \<longleftrightarrow>
     is_available (subject_teacher subj) (day slot)
   \<and> teacher_free (lessons (p2_schedule p)) (subject_teacher subj) slot
   \<and> list_all (\<lambda>c. cohort_free (lessons (p2_schedule p)) c slot) (classes subj)
   \<and> slot \<notin> p2_ege_slots p"

text \<open>Legality in the words of the specification, which also asks for a free classroom.\<close>

definition legal_slot_as_claimed :: "Phase2MandatoryPlacer \<Rightarrow> Subject \<Rightarrow> TimeSlot \<Rightarrow> bool" where
  "legal_slot_as_claimed p subj slot \<longleftrightarrow>
     legal_slot p subj slot
   \<and> list_ex (\<lambda>c. room_free (lessons (p2_schedule p)) c slot) (map snd (classrooms (p2_loader p)))"

text \<open>The slots Phase 1 reserves, and the Phase 2 placer that \<open>main.py\<close> constructs from the
  generator after Phase 1.\<close>

definition phase1_slots :: "Loader \<Rightarrow> (TimeSlot \<Rightarrow> real) \<Rightarrow> TimeSlot list" where
  "phase1_slots ld jitter =
     (case place_ege_practices (new_generator ld) jitter of
        Inl e \<Rightarrow> []
      | Inr g \<Rightarrow> ege_slots g)"

definition phase2_start :: "Loader \<Rightarrow> (TimeSlot \<Rightarrow> real) \<Rightarrow> Phase2MandatoryPlacer" where
  "phase2_start ld jitter =
     new_placer \<lparr>lessons = phase1_lessons ld jitter\<rparr> ld (phase1_slots ld jitter)"

text \<open>The slot index of the optimizer agrees with the lessons: the list kept for a slot
  holds each lesson that is at that slot once, and nothing else.\<close>

definition index_ok :: "Phase3Optimizer \<Rightarrow> bool" where
  "index_ok opt \<longleftrightarrow>
     (\<forall>s r. count_list (lessons_by_slot opt s) r
        = (if r < length (p3_lessons opt) \<and> time_slot (p3_lessons opt ! r) = s then 1 else 0))"

text \<open>The teacher index and the class index as \<open>_build_indices\<close> builds them from a lesson
  list.\<close>

definition teacher_index :: "Lesson list \<Rightarrow> (string \<times> nat list) list" where
  "teacher_index ls =
     foldl (\<lambda>d r. dict_append (name (teacher (ls ! r))) r d) [] [0..<length ls]"

definition class_index :: "Lesson list \<Rightarrow> (string \<times> nat list) list" where
  "class_index ls =
     foldl (\<lambda>d r. dict_append (class_or_group (ls ! r)) r d) [] [0..<length ls]"

definition indices_as_built :: "Phase3Optimizer \<Rightarrow> bool" where
  "indices_as_built opt \<longleftrightarrow>
     lessons_by_teacher opt = teacher_index (p3_lessons opt)
   \<and> lessons_by_class opt = class_index (p3_lessons opt)"

text \<open>The quality metric of a schedule, computed by a fresh optimizer.\<close>

definition metric_of :: "(string \<Rightarrow> string) \<Rightarrow> Lesson list \<Rightarrow> real" where
  "metric_of lower ls = calculate_quality_metric lower (new_optimizer \<lparr>lessons = ls\<rparr>)"

text \<open>The metric that an iteration computes after its trial swap, if it tries one, and the
  metrics computed over a run of the loop, in order.\<close>

definition step_metric :: "(string \<Rightarrow> string) \<Rightarrow> draws \<Rightarrow> int \<Rightarrow> anneal_state \<Rightarrow> real option" where
  "step_metric lower d iteration st =
     (case find_and_try_swap lower
             ((optimizer st)\<lparr>opt_stats := (opt_stats (optimizer st))\<lparr>iterations := iteration + 1\<rparr>\<rparr>) d of
        Inl e \<Rightarrow> None
      | Inr None \<Rightarrow> None
      | Inr (Some t) \<Rightarrow> Some (fst (snd (snd t))))"

fun observed_metrics ::
  "(string \<Rightarrow> string) \<Rightarrow> draws list \<Rightarrow> int \<Rightarrow> anneal_state \<Rightarrow> real list" where
  "observed_metrics lower [] iteration st = []"
| "observed_metrics lower (d # ds) iteration st =
     (case anneal_step lower d iteration st of
        Inl e \<Rightarrow> []
      | Inr (st', stop) \<Rightarrow>
          (case step_metric lower d iteration st of None \<Rightarrow> [] | Some m \<Rightarrow> [m])
          @ (if stop then [] else observed_metrics lower ds (iteration + 1) st'))"

text \<open>The loop state keeps its books: the teacher and class indices are those of the
  working lessons, the two metrics recorded are the metrics of the best snapshot and of the
  working lessons, and the best one is not above the current one.\<close>

definition metrics_ok :: "(string \<Rightarrow> string) \<Rightarrow> anneal_state \<Rightarrow> bool" where
  "metrics_ok lower st \<longleftrightarrow>
     indices_as_built (optimizer st)
   \<and> best_metric st = metric_of lower (lessons (best_schedule st))
   \<and> current_metric st = metric_of lower (p3_lessons (optimizer st))
   \<and> best_metric st \<le> current_metric st"

text \<open>The lessons in the schedule after Phase 2, run as \<open>main.py\<close> runs it on the outcome of
  Phase 1, and the state of the Phase 3 loop after its first \<open>k\<close> iterations (or after
  the iteration at which it stopped early).\<close>

definition phase2_lessons :: "(string \<Rightarrow> string) \<Rightarrow> Loader \<Rightarrow> (TimeSlot \<Rightarrow> real) \<Rightarrow> Lesson list" where
  "phase2_lessons lower ld jitter =
     lessons (p2_schedule (place_all_mandatory_subjects lower (phase2_start ld jitter)))"

definition state_after ::
  "(string \<Rightarrow> string) \<Rightarrow> Phase3Optimizer \<Rightarrow> draws list \<Rightarrow> nat \<Rightarrow> py_error + anneal_state" where
  "state_after lower opt ds k = anneal lower (take k ds) 0 (initial_state lower opt)"

section \<open>Concrete inputs\<close>

definition room20 :: Classroom where
  "room20 = \<lparr>number = ''101'', capacity = 20, floor = 1, responsible_teacher = None\<rparr>"

definition teacher_ivanov :: Teacher where
  "teacher_ivanov =
     \<lparr>name = ''Ivanov'', subjects = [], home_classroom = None, unavailable_days = {}\<rparr>"

definition students25 :: "Student list" where
  "students25 =
     map (\<lambda>k. \<lparr>student_name = replicate (Suc k) CHR ''s'', class_name = ''11A'',
               ege_subjects = [''Math'']\<rparr>) [0..<25]"

definition group25 :: EGEPracticeGroup where
  "group25 = \<lparr>group_subject = ''Math'', group_teacher = teacher_ivanov,
               group_students = students25, group_hours_per_week = 1\<rparr>"

text \<open>One room of capacity 20 and one exam group of 25 students.\<close>

definition loader_small :: Loader where
  "loader_small =
     \<lparr>teachers = [(''Ivanov'', teacher_ivanov)], classrooms = [(''101'', room20)],
      loader_subjects = [], ege_groups = [group25]\<rparr>"



definition no_jitter :: "TimeSlot \<Rightarrow> real" where
  "no_jitter slot = 0"

text \<open>A school whose loader knows no classroom: one teacher who works on Mondays only,
  one cohort, one mandatory subject of one hour a week.\<close>

definition teacher_sidorov :: Teacher where
  "teacher_sidorov =
     \<lparr>name = ''Sidorov'', subjects = [], home_classroom = None,
      unavailable_days = {TUESDAY, WEDNESDAY, THURSDAY, FRIDAY}\<rparr>"

definition subject_music :: Subject where
  "subject_music =
     \<lparr>subject_name = ''Music'', subject_type = MANDATORY, hours_per_week = 1,
      subject_teacher = teacher_sidorov, classes = [''10B''], is_grouped = False, groups = []\<rparr>"

definition loader_no_rooms :: Loader where
  "loader_no_rooms =
     \<lparr>teachers = [(''Sidorov'', teacher_sidorov)], classrooms = [],
      loader_subjects = [subject_music], ege_groups = []\<rparr>"

definition placer_no_rooms :: Phase2MandatoryPlacer where
  "placer_no_rooms = new_placer \<lparr>lessons = []\<rparr> loader_no_rooms []"

text \<open>A teacher who leads an exam group of two hours and teaches a mandatory subject; the
  jitter makes Monday periods 2 and 4 the two best slots.\<close>

definition group_two_hours :: EGEPracticeGroup where
  "group_two_hours = \<lparr>group_subject = ''Math'', group_teacher = teacher_ivanov,
                       group_students = [], group_hours_per_week = 2\<rparr>"

definition subject_drawing :: Subject where
  "subject_drawing =
     \<lparr>subject_name = ''Drawing'', subject_type = MANDATORY, hours_per_week = 1,
      subject_teacher = teacher_ivanov, classes = [''10A''], is_grouped = False, groups = []\<rparr>"

definition loader_gap :: Loader where
  "loader_gap =
     \<lparr>teachers = [(''Ivanov'', teacher_ivanov)], classrooms = [(''101'', room20)],
      loader_subjects = [subject_drawing], ege_groups = [group_two_hours]\<rparr>"

definition jitter_gap :: "TimeSlot \<Rightarrow> real" where
  "jitter_gap slot =
     (if slot = \<lparr>day = MONDAY, lesson_number = 2\<rparr> then 5
      else if slot = \<lparr>day = MONDAY, lesson_number = 4\<rparr> then 4 else 0)"


text \<open>One room, three teachers, three cohorts and three one-hour mandatory subjects, the
  first of them a demanding one (its name is the keyword for mathematics).\<close>

definition teacher_petrov :: Teacher where
  "teacher_petrov =
     \<lparr>name = ''Petrov'', subjects = [], home_classroom = None, unavailable_days = {}\<rparr>"

definition teacher_kuznetsov :: Teacher where
  "teacher_kuznetsov =
     \<lparr>name = ''Kuznetsov'', subjects = [], home_classroom = None, unavailable_days = {}\<rparr>"

definition subject_maths :: Subject where
  "subject_maths =
     \<lparr>subject_name = hd hard_keywords, subject_type = MANDATORY, hours_per_week = 1,
      subject_teacher = teacher_ivanov, classes = [''10A''], is_grouped = False, groups = []\<rparr>"

definition subject_art :: Subject where
  "subject_art =
     \<lparr>subject_name = ''Art'', subject_type = MANDATORY, hours_per_week = 1,
      subject_teacher = teacher_petrov, classes = [''10C''], is_grouped = False, groups = []\<rparr>"

definition subject_singing :: Subject where
  "subject_singing =
     \<lparr>subject_name = ''Singing'', subject_type = MANDATORY, hours_per_week = 1,
      subject_teacher = teacher_kuznetsov, classes = [''10B''], is_grouped = False, groups = []\<rparr>"

definition loader_three :: Loader where
  "loader_three =
     \<lparr>teachers = [(''Ivanov'', teacher_ivanov), (''Petrov'', teacher_petrov),
                  (''Kuznetsov'', teacher_kuznetsov)],
      classrooms = [(''101'', room20)],
      loader_subjects = [subject_art, subject_singing, subject_maths], ege_groups = []\<rparr>"

text \<open>The schedule Phase 2 builds for them: mathematics on Monday at period 2 in the room,
  art on Monday at period 5 in the room, singing on Monday at period 5 without a room.\<close>

definition lesson_maths :: Lesson where
  "lesson_maths =
     \<lparr>subject = hd hard_keywords, teacher = teacher_ivanov, class_or_group = ''10A'',
      classroom = Some room20, time_slot = \<lparr>day = MONDAY, lesson_number = 2\<rparr>,
      is_ege_practice = False, students = []\<rparr>"

definition lesson_art :: Lesson where
  "lesson_art =
     \<lparr>subject = ''Art'', teacher = teacher_petrov, class_or_group = ''10C'',
      classroom = Some room20, time_slot = \<lparr>day = MONDAY, lesson_number = 5\<rparr>,
      is_ege_practice = False, students = []\<rparr>"

definition lesson_singing :: Lesson where
  "lesson_singing =
     \<lparr>subject = ''Singing'', teacher = teacher_kuznetsov, class_or_group = ''10B'',
      classroom = None, time_slot = \<lparr>day = MONDAY, lesson_number = 5\<rparr>,
      is_ege_practice = False, students = []\<rparr>"

definition schedule_three :: Schedule where
  "schedule_three = \<lparr>lessons = [lesson_maths, lesson_art, lesson_singing]\<rparr>"

definition optimizer_three :: Phase3Optimizer where
  "optimizer_three = new_optimizer schedule_three"

text \<open>Draws that pick the first lesson, the first candidate, and accept any swap.\<close>

definition draws_first :: draws where
  "draws_first = \<lparr>focus_draw = 0, first_choice = 0, second_choice = 0, accept_draw = 0\<rparr>"

section \<open>Phase 1: proofs\<close>

lemma find_available_classroom_None:
  "find_available_classroom ld s ts n = None \<longleftrightarrow>
     (\<forall>c\<in>set (map snd (classrooms ld)). \<not> (capacity c \<ge> n \<and> \<not> is_classroom_busy s c ts))"
proof -
  let ?av = "filter (\<lambda>c. capacity c \<ge> n \<and> \<not> is_classroom_busy s c ts) (map snd (classrooms ld))"
  have "find_available_classroom ld s ts n = None \<longleftrightarrow> sort_key capacity ?av = []"
    by (simp add: find_available_classroom_def Let_def split: list.splits)
  also have "\<dots> \<longleftrightarrow> ?av = []"
  proof -
    have "length (sort_key capacity ?av) = length ?av" by (rule length_sort)
    then show ?thesis by (simp only: length_0_conv [symmetric])
  qed
  also have "\<dots> \<longleftrightarrow> (\<forall>c\<in>set (map snd (classrooms ld)). \<not> (capacity c \<ge> n \<and> \<not> is_classroom_busy s c ts))"
    by (simp add: filter_empty_conv)
  finally show ?thesis .
qed

lemma find_available_classroom_Some:
  assumes "find_available_classroom ld s ts n = Some c"
  shows "c \<in> set (map snd (classrooms ld)) \<and> capacity c \<ge> n \<and> \<not> is_classroom_busy s c ts
     \<and> (\<forall>c'\<in>set (map snd (classrooms ld)).
           capacity c' \<ge> n \<and> \<not> is_classroom_busy s c' ts \<longrightarrow> capacity c \<le> capacity c')"
proof -
  let ?av = "filter (\<lambda>c. capacity c \<ge> n \<and> \<not> is_classroom_busy s c ts) (map snd (classrooms ld))"
  from assms obtain rest where srt: "sort_key capacity ?av = c # rest"
    by (auto simp: find_available_classroom_def Let_def split: list.splits)
  have "c \<in> set (sort_key capacity ?av)" using srt by simp
  then have mem: "c \<in> set ?av" by simp
  have "sorted (map capacity (sort_key capacity ?av))" by (rule sorted_sort_key)
  then have "\<forall>x\<in>set rest. capacity c \<le> capacity x" using srt by simp
  moreover have "set ?av = insert c (set rest)"
    using srt by (metis list.simps(15) set_sort)
  ultimately have "\<forall>x\<in>set ?av. capacity c \<le> capacity x" by auto
  with mem show ?thesis by auto
qed


lemma foldl_invariant:
  assumes "P s" and "\<And>s x. P s \<Longrightarrow> x \<in> set xs \<Longrightarrow> P (f s x)"
  shows "P (foldl f s xs)"
  using assms by (induction xs arbitrary: s) auto

lemma no_two_snoc:
  "no_two R (ls @ [l]) \<longleftrightarrow> no_two R ls \<and> (\<forall>x\<in>set ls. \<not> R x l)"
  by (simp add: no_two_def sorted_wrt_append)

lemma place_group_cases:
  "place_group ld k ts s g = s \<or>
   (int k < group_hours_per_week g \<and> is_available (group_teacher g) (day ts) \<and>
    (\<exists>l. lessons (place_group ld k ts s g) = lessons s @ [l]
        \<and> teacher l = group_teacher g \<and> time_slot l = ts \<and> is_ege_practice l
        \<and> classroom l = find_available_classroom ld s ts (student_count g)))"
  by (simp add: place_group_def add_lesson_def)

lemma place_group_available:
  assumes "teachers_available (lessons s)"
  shows "teachers_available (lessons (place_group ld k ts s g))"
  using place_group_cases [of ld k ts s g] assms
  by (auto simp: teachers_available_def)



lemma place_groups_in_slots_available:
  assumes "teachers_available (lessons s)"
  shows "teachers_available (lessons (place_groups_in_slots ld s slots))"
  unfolding place_groups_in_slots_def place_slot_def
  by (rule foldl_invariant [where P = "\<lambda>s. teachers_available (lessons s)"],
      rule assms, rule foldl_invariant, assumption, rule place_group_available)


lemma place_ege_practices_schedule:
  assumes "place_ege_practices g jitter = Inr g'"
  shows "g' = g \<or> schedule g' = place_groups_in_slots (loader g) (schedule g) (ege_slots g')"
  using assms
  by (auto simp: place_ege_practices_def Let_def split: if_splits sum.splits)

lemma phase1_available:
  assumes "place_ege_practices (new_generator ld) jitter = Inr g"
  shows "teachers_available (lessons (schedule g))"
proof -
  have e: "teachers_available (lessons (schedule (new_generator ld)))"
    by (simp add: new_generator_def teachers_available_def)
  from place_ege_practices_schedule [OF assms] show ?thesis
    using e place_groups_in_slots_available [OF e] by auto
qed


lemma phase1_lessons_available: "teachers_available (phase1_lessons ld jitter)"
proof (cases "place_ege_practices (new_generator ld) jitter")
  case (Inl e)
  then show ?thesis by (simp add: phase1_lessons_def teachers_available_def)
next
  case (Inr g)
  then show ?thesis using phase1_available [OF Inr] by (simp add: phase1_lessons_def)
qed


text \<open>
  C8. A group that still needs the slot and whose teacher is available that day always gets
  a lesson in the slot. Its classroom is a free room of the loader with capacity at least
  the group's student count and of least capacity among those; when no free room is large
  enough the lesson is placed all the same, with no classroom.
\<close>

theorem phase1_classroom_choice:
  assumes "int slot_idx < group_hours_per_week g"
    and "is_available (group_teacher g) (day ts)"
  shows "\<exists>l. lessons (place_group ld slot_idx ts s g) = lessons s @ [l]
      \<and> time_slot l = ts \<and> is_ege_practice l
      \<and> (case classroom l of
           None \<Rightarrow>
             (\<forall>c\<in>set (map snd (classrooms ld)).
                \<not> (capacity c \<ge> student_count g \<and> \<not> is_classroom_busy s c ts))
         | Some c \<Rightarrow>
             c \<in> set (map snd (classrooms ld)) \<and> capacity c \<ge> student_count g
             \<and> \<not> is_classroom_busy s c ts
             \<and> (\<forall>c'\<in>set (map snd (classrooms ld)).
                   capacity c' \<ge> student_count g \<and> \<not> is_classroom_busy s c' ts
                   \<longrightarrow> capacity c \<le> capacity c'))"
proof -
  let ?l = "\<lparr>subject = ege_subject_prefix @ group_subject g,
         teacher = group_teacher g,
         class_or_group = ege_label_prefix @ group_subject g,
         classroom = find_available_classroom ld s ts (student_count g),
         time_slot = ts,
         is_ege_practice = True,
         students = group_students g\<rparr>"
  have placed: "lessons (place_group ld slot_idx ts s g) = lessons s @ [?l]"
    using assms by (simp add: place_group_def add_lesson_def)
  have room: "case find_available_classroom ld s ts (student_count g) of
           None \<Rightarrow>
             (\<forall>c\<in>set (map snd (classrooms ld)).
                \<not> (capacity c \<ge> student_count g \<and> \<not> is_classroom_busy s c ts))
         | Some c \<Rightarrow>
             c \<in> set (map snd (classrooms ld)) \<and> capacity c \<ge> student_count g
             \<and> \<not> is_classroom_busy s c ts
             \<and> (\<forall>c'\<in>set (map snd (classrooms ld)).
                   capacity c' \<ge> student_count g \<and> \<not> is_classroom_busy s c' ts
                   \<longrightarrow> capacity c \<le> capacity c')"
  proof (cases "find_available_classroom ld s ts (student_count g)")
    case None
    then show ?thesis using find_available_classroom_None [of ld s ts "student_count g"] by simp
  next
    case (Some c)
    then show ?thesis using find_available_classroom_Some [OF Some] by simp
  qed
  show ?thesis
    by (rule exI [of _ ?l]) (use placed room in simp)
qed

theorem phase1_classroom_choice_witness:
  "int 0 < group_hours_per_week group25
   \<and> is_available (group_teacher group25) (day \<lparr>day = MONDAY, lesson_number = 2\<rparr>)
   \<and> student_count group25 = 25
   \<and> (\<exists>l. lessons (place_group loader_small 0 \<lparr>day = MONDAY, lesson_number = 2\<rparr>
                     \<lparr>lessons = []\<rparr> group25) = [l]
          \<and> classroom l = None)
   \<and> map classroom (phase1_lessons loader_small no_jitter) = [None]"
proof -
  have h1: "int 0 < group_hours_per_week group25" by (simp add: group25_def)
  have h2: "is_available (group_teacher group25) (day \<lparr>day = MONDAY, lesson_number = 2\<rparr>)"
    by (simp add: group25_def teacher_ivanov_def is_available_def)
  have n: "student_count group25 = 25"
    by (simp add: student_count_def group25_def students25_def)
  from phase1_classroom_choice [OF h1 h2, of loader_small "\<lparr>lessons = []\<rparr>"]
  obtain l where l: "lessons (place_group loader_small 0 \<lparr>day = MONDAY, lesson_number = 2\<rparr>
                     \<lparr>lessons = []\<rparr> group25) = [l]"
    and c: "case classroom l of
           None \<Rightarrow> True
         | Some c \<Rightarrow> c \<in> set (map snd (classrooms loader_small)) \<and> capacity c \<ge> student_count group25"
    by (auto split: option.splits)
  have "classroom l = None"
  proof (cases "classroom l")
    case None
    then show ?thesis .
  next
    case (Some c')
    with c n have m: "c' \<in> set (map snd (classrooms loader_small))" and cap: "capacity c' \<ge> 25"
      by simp_all
    from m have "c' = room20" by (simp add: loader_small_def)
    with cap show ?thesis by (simp add: room20_def)
  qed
  moreover have "map classroom (phase1_lessons loader_small no_jitter) = [None]"
    by code_simp
  ultimately show ?thesis using h1 h2 n l by blast
qed

text \<open>
  C6 (as amended). With at least one teacher, the score of a slot is 100, plus 50 times the
  fraction of all teachers available on the slot's day, plus the jitter drawn, and:
  minus 30 at period 1, minus 20 at period 7 (a lighter penalty than at period 1),
  plus 20 at periods 2 to 4, and nothing more at periods 5 and 6.
\<close>

theorem ege_slot_score_bands:
  assumes "teachers ld \<noteq> []"
  shows "let base = 100 + 50 * (real (length (filter (\<lambda>t. is_available t d) (map snd (teachers ld))))
                                 / real (length (teachers ld)))
         in evaluate_ege_slot ld \<lparr>day = d, lesson_number = 1\<rparr> j = Inr (base - 30 + j)
          \<and> evaluate_ege_slot ld \<lparr>day = d, lesson_number = 7\<rparr> j = Inr (base - 20 + j)
          \<and> (\<forall>n\<in>{2..4}. evaluate_ege_slot ld \<lparr>day = d, lesson_number = n\<rparr> j = Inr (base + 20 + j))
          \<and> (\<forall>n\<in>{5, 6}. evaluate_ege_slot ld \<lparr>day = d, lesson_number = n\<rparr> j = Inr (base + j))"
  using assms by (simp add: evaluate_ege_slot_def ege_period_term_def Let_def)

theorem ege_slot_score_bands_witness:
  "teachers loader_small \<noteq> []
   \<and> evaluate_ege_slot loader_small \<lparr>day = MONDAY, lesson_number = 1\<rparr> 0 = Inr 120
   \<and> evaluate_ege_slot loader_small \<lparr>day = MONDAY, lesson_number = 7\<rparr> 0 = Inr 130
   \<and> evaluate_ege_slot loader_small \<lparr>day = MONDAY, lesson_number = 3\<rparr> 0 = Inr 170
   \<and> evaluate_ege_slot loader_small \<lparr>day = MONDAY, lesson_number = 5\<rparr> 0 = Inr 150"
proof -
  have h: "teachers loader_small \<noteq> []" by (simp add: loader_small_def)
  have a: "is_available teacher_ivanov MONDAY"
    by (simp add: teacher_ivanov_def is_available_def)
  show ?thesis
    using h a ege_slot_score_bands [OF h, of MONDAY 0]
    by (simp add: Let_def loader_small_def)
qed

text \<open>
  C6, as stated, fails: with one teacher, available on Monday, and jitter 0 the score of
  Monday period 7 is 130 and the score of Monday period 1 is 120, so period 7 is penalised
  less than period 1, not more.
\<close>

theorem ege_period7_penalty_counterexample:
  "evaluate_ege_slot loader_small \<lparr>day = MONDAY, lesson_number = 7\<rparr> 0 = Inr 130
   \<and> evaluate_ege_slot loader_small \<lparr>day = MONDAY, lesson_number = 1\<rparr> 0 = Inr 120
   \<and> \<not> ((130::real) < 120)"
  by (simp add: evaluate_ege_slot_def ege_period_term_def Let_def loader_small_def
        teacher_ivanov_def is_available_def)


subsection \<open>The reserved slots lie on the grid\<close>

lemma score_slots_fst:
  "score_slots ld jitter xs = Inr sc \<Longrightarrow> map fst sc = xs"
  by (induction xs arbitrary: sc) (auto split: sum.splits)

lemma select_spread_subset:
  "set (select_spread n xs sel) \<subseteq> set xs \<union> set sel"
  by (induction n xs sel rule: select_spread.induct) auto

lemma fill_remaining_subset:
  "set (fill_remaining n xs sel) \<subseteq> set xs \<union> set sel"
  by (induction n xs sel rule: fill_remaining.induct) auto

lemma find_ege_practice_slots_grid:
  assumes "find_ege_practice_slots ld jitter n = Inr slots"
  shows "set slots \<subseteq> set all_time_slots"
proof -
  from assms obtain sc where sc: "score_slots ld jitter all_time_slots = Inr sc"
    by (auto simp: find_ege_practice_slots_def split: sum.splits)
  let ?sorted = "map fst (sort_key (\<lambda>p. - snd p) sc)"
  have s: "set ?sorted = set all_time_slots"
  proof -
    have "set ?sorted = fst ` set sc" by simp
    also have "\<dots> = set (map fst sc)" by simp
    finally show ?thesis by (simp only: score_slots_fst [OF sc])
  qed
  have "slots = fill_remaining n ?sorted (select_spread n ?sorted [])
        \<or> slots = select_spread n ?sorted []"
    using assms sc by (auto simp: find_ege_practice_slots_def Let_def split: if_splits)
  then show ?thesis
    using select_spread_subset [of n ?sorted "[]"]
      fill_remaining_subset [of n ?sorted "select_spread n ?sorted []"] s
    by auto
qed

lemma place_group_slots:
  assumes "\<forall>l\<in>set (lessons s). time_slot l \<in> S" and "ts \<in> S"
  shows "\<forall>l\<in>set (lessons (place_group ld k ts s g)). time_slot l \<in> S"
  using place_group_cases [of ld k ts s g] assms by auto

lemma place_groups_in_slots_slots:
  assumes "\<forall>l\<in>set (lessons s). time_slot l \<in> S" and "set slots \<subseteq> S"
  shows "\<forall>l\<in>set (lessons (place_groups_in_slots ld s slots)). time_slot l \<in> S"
  unfolding place_groups_in_slots_def
proof (rule foldl_invariant [where P = "\<lambda>s. \<forall>l\<in>set (lessons s). time_slot l \<in> S"])
  show "\<forall>l\<in>set (lessons s). time_slot l \<in> S" by (rule assms(1))
next
  fix s' :: Schedule and x
  assume a: "\<forall>l\<in>set (lessons s'). time_slot l \<in> S" and x: "x \<in> set (enumerate 0 slots)"
  have "snd x \<in> set slots"
  proof -
    from x have "fst x < length slots" and "slots ! fst x = snd x"
      by (simp_all add: in_set_enumerate_eq)
    then show ?thesis using nth_mem by metis
  qed
  with assms(2) have m: "snd x \<in> S" by auto
  show "\<forall>l\<in>set (lessons (place_slot ld s' x)). time_slot l \<in> S"
    unfolding place_slot_def
    by (rule foldl_invariant [where P = "\<lambda>s. \<forall>l\<in>set (lessons s). time_slot l \<in> S"],
        rule a, rule place_group_slots [OF _ m])
qed

lemma phase1_lessons_on_grid:
  "\<forall>l\<in>set (phase1_lessons ld jitter). time_slot l \<in> set all_time_slots"
proof (cases "place_ege_practices (new_generator ld) jitter")
  case (Inl e)
  then show ?thesis by (simp add: phase1_lessons_def)
next
  case (Inr g)
  show ?thesis
  proof (cases "ege_groups ld = []")
    case True
    with Inr have "g = new_generator ld" by (simp add: place_ege_practices_def new_generator_def)
    with Inr show ?thesis by (simp add: phase1_lessons_def new_generator_def)
  next
    case False
    with Inr obtain slots where
      f: "find_ege_practice_slots ld jitter
            (Max (set (map group_hours_per_week (ege_groups ld)))) = Inr slots"
      and g: "schedule g = place_groups_in_slots ld \<lparr>lessons = []\<rparr> slots"
      by (auto simp: place_ege_practices_def new_generator_def Let_def split: sum.splits)
    from place_groups_in_slots_slots [OF _ find_ege_practice_slots_grid [OF f], of "\<lparr>lessons = []\<rparr>" ld]
    show ?thesis using Inr g by (simp add: phase1_lessons_def)
  qed
qed

section \<open>Phase 2: proofs\<close>

subsection \<open>The caches\<close>

lemma keys_update: "set (dict_keys (AList.update k v d)) = insert k (set (dict_keys d))"
  using AList.dom_update [of k v d] by (simp add: dict_keys_def)

lemma distinct_keys_update: "distinct (dict_keys (AList.update k v d)) = distinct (dict_keys d)"
  by (auto simp: dict_keys_def AList.update_keys)

lemma update_cache_teacher:
  "teacher_schedule (update_cache p l) n =
     (if n = name (teacher l) then AList.update (time_slot l) l (teacher_schedule p n)
      else teacher_schedule p n)"
  by (simp add: update_cache_def Let_def split: option.splits)

lemma update_cache_class:
  "class_schedule (update_cache p l) c =
     (if c = class_or_group l then AList.update (time_slot l) l (class_schedule p c)
      else class_schedule p c)"
  by (simp add: update_cache_def Let_def split: option.splits)

lemma update_cache_classroom:
  "classroom_schedule (update_cache p l) r =
     (if in_room r l then AList.update (time_slot l) l (classroom_schedule p r)
      else classroom_schedule p r)"
  by (auto simp: update_cache_def Let_def in_room_def split: option.splits)

lemma update_cache_rest [simp]:
  "p2_schedule (update_cache p l) = p2_schedule p"
  "p2_loader (update_cache p l) = p2_loader p"
  "p2_ege_slots (update_cache p l) = p2_ege_slots p"
  "all_slots (update_cache p l) = all_slots p"
  "stats (update_cache p l) = stats p"
  by (simp_all add: update_cache_def Let_def split: option.splits)

lemma slots_where_snoc:
  "slots_where P (ls @ [l]) = (if P l then insert (time_slot l) (slots_where P ls) else slots_where P ls)"
  by (auto simp: slots_where_def)

lemma cache_exact_update:
  assumes "cache_exact p ls"
  shows "cache_exact (update_cache p l) (ls @ [l])"
  using assms unfolding cache_exact_def
  by (simp add: update_cache_teacher update_cache_class update_cache_classroom
        slots_where_snoc keys_update distinct_keys_update)

lemma cache_exact_foldl:
  assumes "cache_exact p ys"
  shows "cache_exact (foldl update_cache p xs) (ys @ xs)"
  using assms
proof (induction xs arbitrary: p ys)
  case Nil
  then show ?case by simp
next
  case (Cons x xs)
  from Cons.IH [OF cache_exact_update [OF Cons.prems, of x]] show ?case by simp
qed

lemma foldl_update_cache_rest [simp]:
  "p2_schedule (foldl update_cache p xs) = p2_schedule p"
  "all_slots (foldl update_cache p xs) = all_slots p"
  "p2_ege_slots (foldl update_cache p xs) = p2_ege_slots p"
  "p2_loader (foldl update_cache p xs) = p2_loader p"
  "stats (foldl update_cache p xs) = stats p"
  by (induction xs arbitrary: p) simp_all

lemma new_placer_fields [simp]:
  "p2_schedule (new_placer s ld slots) = s"
  "all_slots (new_placer s ld slots) = all_time_slots"
  "p2_ege_slots (new_placer s ld slots) = set slots"
  "p2_loader (new_placer s ld slots) = ld"
  by (simp_all add: new_placer_def build_cache_def)

lemma new_placer_ok:
  assumes "\<forall>l\<in>set (lessons s). time_slot l \<in> set all_time_slots"
  shows "placer_ok (new_placer s ld slots)"
proof -
  let ?p0 = "\<lparr>p2_schedule = s, p2_loader = ld, p2_ege_slots = set slots,
        all_slots = all_time_slots,
        stats = \<lparr>total_required = 0, placed = 0, failed = 0, conflicts = []\<rparr>,
        teacher_schedule = (\<lambda>_. []), class_schedule = (\<lambda>_. []),
        classroom_schedule = (\<lambda>_. [])\<rparr>"
  have "cache_exact ?p0 []"
    by (simp add: cache_exact_def dict_keys_def slots_where_def)
  from cache_exact_foldl [OF this, of "lessons s"]
  have "cache_exact (new_placer s ld slots) (lessons s)"
    by (simp add: new_placer_def build_cache_def)
  with assms show ?thesis by (simp add: placer_ok_def)
qed

lemma placer_ok_add:
  assumes "placer_ok p" and "time_slot l \<in> set all_time_slots"
  shows "placer_ok (update_cache (p\<lparr>p2_schedule := add_lesson (p2_schedule p) l\<rparr>) l)"
proof -
  have "cache_exact (p\<lparr>p2_schedule := add_lesson (p2_schedule p) l\<rparr>) (lessons (p2_schedule p))"
    using assms(1) by (simp add: placer_ok_def cache_exact_def)
  from cache_exact_update [OF this, of l] assms show ?thesis
    by (simp add: placer_ok_def add_lesson_def)
qed

lemma placer_ok_stats: "placer_ok (p\<lparr>stats := s\<rparr>) = placer_ok p"
  by (simp add: placer_ok_def cache_exact_def)

subsection \<open>Choosing a slot\<close>

lemma find_best_slot_Some:
  assumes "find_best_slot p sc subj du = Some b"
  shows "is_slot_available p b subj \<and> b \<in> snd ` set sc"
proof (cases "find (\<lambda>x. day (snd x) \<notin> du \<and> is_slot_available p (snd x) subj) sc")
  case (Some x)
  with assms have "b = snd x" by (simp add: find_best_slot_def)
  moreover from Some have "x \<in> set sc \<and> is_slot_available p (snd x) subj"
    by (auto simp: find_Some_iff)
  ultimately show ?thesis by auto
next
  case None
  with assms obtain x where x: "find (\<lambda>x. is_slot_available p (snd x) subj) sc = Some x" "b = snd x"
    by (auto simp: find_best_slot_def split: option.splits)
  from x(1) have "x \<in> set sc \<and> is_slot_available p (snd x) subj"
    by (auto simp: find_Some_iff)
  with x(2) show ?thesis by auto
qed

lemma find_best_slot_None:
  "find_best_slot p sc subj du = None \<longleftrightarrow> (\<forall>x\<in>set sc. \<not> is_slot_available p (snd x) subj)"
proof
  assume "find_best_slot p sc subj du = None"
  then have "find (\<lambda>x. is_slot_available p (snd x) subj) sc = None"
    by (simp add: find_best_slot_def split: option.splits)
  then show "\<forall>x\<in>set sc. \<not> is_slot_available p (snd x) subj"
    by (auto simp: find_None_iff)
next
  assume a: "\<forall>x\<in>set sc. \<not> is_slot_available p (snd x) subj"
  then have "find (\<lambda>x. is_slot_available p (snd x) subj) sc = None"
    and "find (\<lambda>x. day (snd x) \<notin> du \<and> is_slot_available p (snd x) subj) sc = None"
    by (auto simp: find_None_iff)
  then show "find_best_slot p sc subj du = None"
    by (simp add: find_best_slot_def)
qed

lemma is_slot_available_iff:
  "is_slot_available p slot subj \<longleftrightarrow>
     is_available (subject_teacher subj) (day slot)
   \<and> slot \<notin> set (dict_keys (teacher_schedule p (name (subject_teacher subj))))
   \<and> (\<forall>c\<in>set (classes subj). slot \<notin> set (dict_keys (class_schedule p c)))
   \<and> slot \<notin> p2_ege_slots p"
  by (auto simp: is_slot_available_def list_ex_iff)

lemma is_slot_available_stats [simp]:
  "is_slot_available (p\<lparr>stats := s\<rparr>) slot subj = is_slot_available p slot subj"
  by (simp add: is_slot_available_iff)

subsection \<open>One hour of \<open>_place_subject\<close>\<close>

lemma place_hour_None:
  assumes "find_best_slot (placer st) (scored_slots st) subj (days_used st) = None"
  shows "p2_schedule (placer (place_hour subj st)) = p2_schedule (placer st)"
    and "failed (stats (placer (place_hour subj st))) = failed (stats (placer st)) + 1"
    and "placed (stats (placer (place_hour subj st))) = placed (stats (placer st))"
    and "scored_slots (place_hour subj st) = scored_slots st"
    and "placer (place_hour subj st)
           = (placer st)\<lparr>stats := stats (placer (place_hour subj st))\<rparr>"
  using assms by (simp_all add: place_hour_def Let_def)

lemma place_hour_Some:
  assumes "find_best_slot (placer st) (scored_slots st) subj (days_used st) = Some b"
  shows "placer (place_hour subj st) =
           (update_cache ((placer st)\<lparr>p2_schedule :=
               add_lesson (p2_schedule (placer st)) (hour_lesson (placer st) subj b)\<rparr>)
             (hour_lesson (placer st) subj b))\<lparr>stats := stats (placer (place_hour subj st))\<rparr>"
    and "failed (stats (placer (place_hour subj st))) = failed (stats (placer st))"
    and "placed (stats (placer (place_hour subj st))) = placed (stats (placer st)) + 1"
    and "scored_slots (place_hour subj st) = filter (\<lambda>x. snd x \<noteq> b) (scored_slots st)"
    and "lessons (p2_schedule (placer (place_hour subj st)))
           = lessons (p2_schedule (placer st)) @ [hour_lesson (placer st) subj b]"
  using assms by (simp_all add: place_hour_def Let_def hour_lesson_def add_lesson_def)

lemma state_ok_step:
  assumes "state_ok subj st"
  shows "state_ok subj (place_hour subj st)"
proof (cases "find_best_slot (placer st) (scored_slots st) subj (days_used st)")
  case None
  from place_hour_None(5) [OF None] obtain s
    where p: "placer (place_hour subj st) = (placer st)\<lparr>stats := s\<rparr>" by (rule that)
  show ?thesis
    using assms place_hour_None(4) [OF None]
    by (simp add: state_ok_def p placer_ok_stats)
next
  case (Some b)
  let ?p = "placer st"
  let ?L = "hour_lesson ?p subj b"
  from place_hour_Some(1) [OF Some] obtain s
    where p: "placer (place_hour subj st) =
      (update_cache (?p\<lparr>p2_schedule := add_lesson (p2_schedule ?p) ?L\<rparr>) ?L)\<lparr>stats := s\<rparr>"
    by (rule that)
  from find_best_slot_Some [OF Some] have b: "b \<in> snd ` set (scored_slots st)" by simp
  with assms have grid: "time_slot ?L \<in> set all_time_slots"
    by (auto simp: state_ok_def hour_lesson_def)
  have ok: "placer_ok (placer (place_hour subj st))"
    using placer_ok_add [OF _ grid] assms by (simp add: p placer_ok_stats state_ok_def)
  have sub: "snd ` set (scored_slots (place_hour subj st)) \<subseteq> set all_time_slots"
    using assms by (auto simp: place_hour_Some(4) [OF Some] state_ok_def)
  have mono: "is_slot_available (placer (place_hour subj st)) slot subj
        \<Longrightarrow> is_slot_available ?p slot subj \<and> slot \<noteq> b" for slot
    by (auto simp: p is_slot_available_iff update_cache_teacher update_cache_class
          keys_update hour_lesson_def split: if_splits)
  have "\<forall>slot\<in>set all_time_slots.
        is_slot_available (placer (place_hour subj st)) slot subj
          \<longrightarrow> slot \<in> snd ` set (scored_slots (place_hour subj st))"
  proof (intro ballI impI)
    fix slot assume g: "slot \<in> set all_time_slots"
      and a: "is_slot_available (placer (place_hour subj st)) slot subj"
    from mono [OF a] have a': "is_slot_available ?p slot subj" and ne: "slot \<noteq> b" by simp_all
    from assms g a' have "slot \<in> snd ` set (scored_slots st)" by (simp add: state_ok_def)
    with ne show "slot \<in> snd ` set (scored_slots (place_hour subj st))"
      by (auto simp: place_hour_Some(4) [OF Some])
  qed
  with ok sub show ?thesis by (simp add: state_ok_def)
qed

lemma state_ok_funpow:
  assumes "state_ok subj st"
  shows "state_ok subj ((place_hour subj ^^ n) st)"
  using assms by (induction n) (simp_all add: state_ok_step)

subsection \<open>Gaps between consecutive periods\<close>

lemma adjacent_gaps_telescope:
  "xs \<noteq> [] \<Longrightarrow> adjacent_gaps xs = last xs - hd xs - (int (length xs) - 1)"
  by (induction xs rule: adjacent_gaps.induct) auto

lemma sorted_hd_Min:
  assumes "sorted xs" and "xs \<noteq> []"
  shows "hd xs = Min (set xs)"
proof -
  from assms obtain x rest where xs: "xs = x # rest" by (cases xs) auto
  with assms(1) have "\<forall>y\<in>set xs. x \<le> y" by auto
  then have "Min (set xs) = x" using xs by (intro Min_eqI) auto
  with xs show ?thesis by simp
qed

lemma sorted_last_Max:
  assumes "sorted xs" and "xs \<noteq> []"
  shows "last xs = Max (set xs)"
proof -
  have "\<forall>y\<in>set xs. y \<le> last xs"
    using assms(1) by (induction xs) (auto split: if_splits)
  moreover have "last xs \<in> set xs" using assms(2) by simp
  ultimately have "Max (set xs) = last xs" by (intro Max_eqI) auto
  then show ?thesis by simp
qed

lemma adjacent_gaps_sort:
  fixes xs :: "int list"
  assumes "xs \<noteq> []"
  shows "adjacent_gaps (sort xs) = Max (set xs) - Min (set xs) + 1 - int (length xs)"
proof -
  have ne: "sort xs \<noteq> []" using assms by (metis length_sort length_0_conv)
  have "hd (sort xs) = Min (set xs)" using sorted_hd_Min [OF _ ne] by simp
  moreover have "last (sort xs) = Max (set xs)" using sorted_last_Max [OF _ ne] by simp
  ultimately show ?thesis using adjacent_gaps_telescope [OF ne] by simp
qed



subsection \<open>The score of an available slot\<close>

lemma grid_period:
  "slot \<in> set all_time_slots \<Longrightarrow> 1 \<le> lesson_number slot \<and> lesson_number slot \<le> 7"
  by (auto simp: all_time_slots_def)

lemma slot_eqI:
  fixes a b :: TimeSlot
  shows "day a = day b \<Longrightarrow> lesson_number a = lesson_number b \<Longrightarrow> a = b"
  by simp

lemma distinct_day_periods:
  fixes ks :: "TimeSlot list"
  assumes "distinct ks"
  shows "distinct (map lesson_number (filter (\<lambda>ts. day ts = d) ks))"
proof -
  have "inj_on lesson_number (set (filter (\<lambda>ts. day ts = d) ks))"
    by (rule inj_onI) (auto intro: slot_eqI)
  with assms show ?thesis by (simp add: distinct_map)
qed

lemma day_load_le_7:
  fixes ks :: "TimeSlot list"
  assumes "distinct ks" and "set ks \<subseteq> set all_time_slots"
  shows "length (filter (\<lambda>ts. day ts = d) ks) \<le> 7"
proof -
  let ?ps = "map lesson_number (filter (\<lambda>ts. day ts = d) ks)"
  have d: "distinct ?ps" by (rule distinct_day_periods [OF assms(1)])
  have "set ?ps \<subseteq> {1..7}" using assms(2) grid_period by auto
  then have "card (set ?ps) \<le> card {1..7::int}" by (intro card_mono) auto
  then have "card (set ?ps) \<le> 7" by simp
  moreover have "card (set ?ps) = length ?ps" by (rule distinct_card [OF d])
  ultimately have "length ?ps \<le> 7" by (simp only:)
  then show ?thesis by (simp only: length_map)
qed

lemma gaps_le_5:
  fixes ys :: "int list"
  assumes "set ys \<subseteq> {1..7}" and "length ys \<ge> 2"
  shows "adjacent_gaps (sort ys) \<le> 5"
proof -
  have ne: "ys \<noteq> []" using assms(2) by auto
  have "Max (set ys) \<in> set ys" and "Min (set ys) \<in> set ys" using ne by simp_all
  with assms(1) have "Max (set ys) \<le> 7" and "1 \<le> Min (set ys)" by auto
  with assms(2) show ?thesis using adjacent_gaps_sort [OF ne] by simp
qed

text \<open>The score of an available slot, term by term, as read from the caches.\<close>

lemma evaluate_slot_available:
  assumes "is_slot_available p slot subj"
  shows "evaluate_slot p slot subj is_hard =
     100 + period_band is_hard (lesson_number slot) + fixed_penalty (lesson_number slot)
     - (case classes subj of [] \<Rightarrow> 0
        | c # _ \<Rightarrow> if c = [] then 0
            else int (length (filter (\<lambda>ts. day ts = day slot) (dict_keys (class_schedule p c)))) * 3)
     - (if filter (\<lambda>ts. day ts = day slot)
             (dict_keys (teacher_schedule p (name (subject_teacher subj)))) \<noteq> []
        then adjacent_gaps (sort (map lesson_number (filter (\<lambda>ts. day ts = day slot)
               (dict_keys (teacher_schedule p (name (subject_teacher subj))))) @ [lesson_number slot])) * 5
        else 0)
     + (if day slot \<notin> set (map day (dict_keys (teacher_schedule p (name (subject_teacher subj)))))
        then 5 else 0)"
proof -
  from assms have "slot \<notin> p2_ege_slots p" by (simp add: is_slot_available_iff)
  with assms show ?thesis
    by (auto simp: evaluate_slot_def Let_def period_band_def fixed_penalty_def split: list.splits)
qed

lemma evaluate_slot_pos:
  assumes ok: "placer_ok p" and grid: "slot \<in> set all_time_slots"
    and av: "is_slot_available p slot subj"
  shows "evaluate_slot p slot subj is_hard > 0"
proof -
  let ?n = "lesson_number slot"
  let ?kt = "dict_keys (teacher_schedule p (name (subject_teacher subj)))"
  let ?ts = "filter (\<lambda>ts. day ts = day slot) ?kt"
  have keys_grid: "set (dict_keys (class_schedule p c)) \<subseteq> set all_time_slots"
       "distinct (dict_keys (class_schedule p c))" for c
    using ok by (auto simp: placer_ok_def cache_exact_def slots_where_def)
  have tkeys: "set ?kt \<subseteq> set all_time_slots" "distinct ?kt"
    using ok by (auto simp: placer_ok_def cache_exact_def slots_where_def)
  have n: "1 \<le> ?n" "?n \<le> 7" using grid_period [OF grid] by simp_all
  have band: "period_band is_hard ?n + fixed_penalty ?n \<ge> - 45"
    by (simp add: period_band_def fixed_penalty_def)
  have load: "(case classes subj of [] \<Rightarrow> 0
        | c # _ \<Rightarrow> if c = [] then 0
            else int (length (filter (\<lambda>ts. day ts = day slot) (dict_keys (class_schedule p c)))) * 3)
        \<le> 21"
    using day_load_le_7 [OF keys_grid(2) keys_grid(1)]
    by (auto split: list.splits simp: le_imp_less_Suc numeral_eq_Suc)
  have gaps: "(if ?ts \<noteq> []
        then adjacent_gaps (sort (map lesson_number ?ts @ [?n])) * 5 else 0) \<le> 25"
  proof (cases "?ts = []")
    case True
    then show ?thesis by simp
  next
    case False
    then have len: "length (map lesson_number ?ts @ [?n]) \<ge> 2"
      by (cases ?ts) auto
    have "set (map lesson_number ?ts) \<subseteq> {1..7}"
      using tkeys(1) grid_period by auto
    with n have "set (map lesson_number ?ts @ [?n]) \<subseteq> {1..7}" by auto
    from gaps_le_5 [OF this len] False show ?thesis by simp
  qed
  show ?thesis
    unfolding evaluate_slot_available [OF av]
    using band load gaps by (simp split: if_splits)
qed

lemma state_ok_init:
  assumes "placer_ok p"
  shows "state_ok subj (place_subject_state lower p subj)"
proof -
  let ?h = "is_hard_subject lower subj"
  have grid: "all_slots p = all_time_slots" using assms by (simp add: placer_ok_def)
  have set_sc: "snd ` set (evaluate_all_slots p subj ?h)
      = {slot \<in> set all_time_slots. evaluate_slot p slot subj ?h > 0}"
    by (auto simp: evaluate_all_slots_def grid image_iff)
  have "\<forall>slot\<in>set all_time_slots. is_slot_available p slot subj
          \<longrightarrow> slot \<in> snd ` set (evaluate_all_slots p subj ?h)"
    using evaluate_slot_pos [OF assms] by (auto simp: set_sc)
  moreover have "snd ` set (evaluate_all_slots p subj ?h) \<subseteq> set all_time_slots"
    by (auto simp: set_sc)
  ultimately show ?thesis using assms by (simp add: state_ok_def place_subject_state_def)
qed

subsection \<open>Failed hours and legal slots\<close>

lemma in_slots_where:
  "slot \<in> slots_where P ls \<longleftrightarrow> list_ex (\<lambda>l. P l \<and> time_slot l = slot) ls"
  by (auto simp: slots_where_def list_ex_iff)

lemma available_iff_legal:
  assumes "placer_ok p"
  shows "is_slot_available p slot subj \<longleftrightarrow> legal_slot p subj slot"
proof -
  from assms have ce: "cache_exact p (lessons (p2_schedule p))" by (simp add: placer_ok_def)
  have t: "slot \<in> set (dict_keys (teacher_schedule p n))
      \<longleftrightarrow> list_ex (\<lambda>l. name (teacher l) = n \<and> time_slot l = slot) (lessons (p2_schedule p))" for n
    using ce by (simp add: cache_exact_def in_slots_where)
  have c: "slot \<in> set (dict_keys (class_schedule p c))
      \<longleftrightarrow> list_ex (\<lambda>l. class_or_group l = c \<and> time_slot l = slot) (lessons (p2_schedule p))" for c
    using ce by (simp add: cache_exact_def in_slots_where)
  show ?thesis
    by (simp add: is_slot_available_iff legal_slot_def teacher_free_def cohort_free_def t c
          list_all_iff)
qed

text \<open>
  C3 (as amended). In the loop of \<open>_place_subject\<close> over the hours of a subject, started
  from a sound placer, take the state before any hour. If some slot of the grid is legal
  for the subject (teacher available that day, teacher free, every cohort of the subject
  free, slot not reserved for exam practice; a free classroom is not required), the hour
  places one lesson, in a legal slot, and records no failure. If no slot of the grid is
  legal, the hour records one failure and places nothing.
\<close>

theorem phase2_hour_outcome:
  assumes "placer_ok p"
  shows "let st = (place_hour subj ^^ k) (place_subject_state lower p subj);
             st' = place_hour subj st
         in if list_ex (legal_slot (placer st) subj) all_time_slots
            then failed (stats (placer st')) = failed (stats (placer st))
               \<and> placed (stats (placer st')) = placed (stats (placer st)) + 1
               \<and> (\<exists>b. b \<in> set all_time_slots \<and> legal_slot (placer st) subj b
                    \<and> lessons (p2_schedule (placer st'))
                        = lessons (p2_schedule (placer st)) @ [hour_lesson (placer st) subj b])
            else failed (stats (placer st')) = failed (stats (placer st)) + 1
               \<and> placed (stats (placer st')) = placed (stats (placer st))
               \<and> p2_schedule (placer st') = p2_schedule (placer st)"
proof -
  define st where "st = (place_hour subj ^^ k) (place_subject_state lower p subj)"
  have ok: "state_ok subj st"
    unfolding st_def by (rule state_ok_funpow [OF state_ok_init [OF assms]])
  then have pok: "placer_ok (placer st)" by (simp add: state_ok_def)
  have legal: "list_ex (legal_slot (placer st) subj) all_time_slots
      \<longleftrightarrow> find_best_slot (placer st) (scored_slots st) subj (days_used st) \<noteq> None"
  proof
    assume "list_ex (legal_slot (placer st) subj) all_time_slots"
    then obtain slot where s: "slot \<in> set all_time_slots" "is_slot_available (placer st) slot subj"
      using available_iff_legal [OF pok] by (auto simp: list_ex_iff)
    with ok have "slot \<in> snd ` set (scored_slots st)" by (simp add: state_ok_def)
    with s(2) show "find_best_slot (placer st) (scored_slots st) subj (days_used st) \<noteq> None"
      by (auto simp: find_best_slot_None)
  next
    assume "find_best_slot (placer st) (scored_slots st) subj (days_used st) \<noteq> None"
    then obtain b where b: "find_best_slot (placer st) (scored_slots st) subj (days_used st) = Some b"
      by auto
    from find_best_slot_Some [OF b] ok
    have "b \<in> set all_time_slots" "is_slot_available (placer st) b subj"
      by (auto simp: state_ok_def)
    then show "list_ex (legal_slot (placer st) subj) all_time_slots"
      using available_iff_legal [OF pok] by (auto simp: list_ex_iff)
  qed
  have "if list_ex (legal_slot (placer st) subj) all_time_slots
        then failed (stats (placer (place_hour subj st))) = failed (stats (placer st))
           \<and> placed (stats (placer (place_hour subj st))) = placed (stats (placer st)) + 1
           \<and> (\<exists>b. b \<in> set all_time_slots \<and> legal_slot (placer st) subj b
                \<and> lessons (p2_schedule (placer (place_hour subj st)))
                    = lessons (p2_schedule (placer st)) @ [hour_lesson (placer st) subj b])
        else failed (stats (placer (place_hour subj st))) = failed (stats (placer st)) + 1
           \<and> placed (stats (placer (place_hour subj st))) = placed (stats (placer st))
           \<and> p2_schedule (placer (place_hour subj st)) = p2_schedule (placer st)"
  proof (cases "find_best_slot (placer st) (scored_slots st) subj (days_used st)")
    case None
    with legal have "\<not> list_ex (legal_slot (placer st) subj) all_time_slots" by simp
    then show ?thesis using place_hour_None(1,2,3) [OF None] by simp
  next
    case (Some b)
    with legal have l: "list_ex (legal_slot (placer st) subj) all_time_slots" by simp
    from find_best_slot_Some [OF Some] ok
    have "b \<in> set all_time_slots" "legal_slot (placer st) subj b"
      using available_iff_legal [OF pok] by (auto simp: state_ok_def)
    then show ?thesis using l place_hour_Some(2,3,5) [OF Some] by auto
  qed
  then show ?thesis unfolding st_def Let_def .
qed

lemma placer_no_rooms_ok: "placer_ok placer_no_rooms"
  unfolding placer_no_rooms_def by (rule new_placer_ok) simp

theorem phase2_hour_outcome_witness:
  "placer_ok placer_no_rooms
   \<and> list_ex (legal_slot placer_no_rooms subject_music) all_time_slots
   \<and> failed (stats (placer (place_hour subject_music
        (place_subject_state id placer_no_rooms subject_music)))) = 0
   \<and> placed (stats (placer (place_hour subject_music
        (place_subject_state id placer_no_rooms subject_music)))) = 1"
proof -
  have l: "list_ex (legal_slot placer_no_rooms subject_music) all_time_slots" by code_simp
  have f: "failed (stats placer_no_rooms) = 0" "placed (stats placer_no_rooms) = 0"
    by (simp_all add: placer_no_rooms_def new_placer_def build_cache_def)
  from phase2_hour_outcome [OF placer_no_rooms_ok, where subj = subject_music and k = 0
      and lower = id] l f
  show ?thesis using placer_no_rooms_ok by (simp add: Let_def place_subject_state_def)
qed

text \<open>
  C3, as stated, fails: where the loader has no classroom, no slot has a free classroom, so
  no slot is legal in the claim's sense; yet the hour is not recorded as failed: the lesson
  is placed, with no classroom.
\<close>

theorem phase2_no_room_counterexample:
  "\<not> list_ex (legal_slot_as_claimed placer_no_rooms subject_music) all_time_slots
   \<and> failed (stats (placer (place_hour subject_music
        (place_subject_state id placer_no_rooms subject_music)))) = 0
   \<and> map classroom (lessons (p2_schedule (placer (place_hour subject_music
        (place_subject_state id placer_no_rooms subject_music))))) = [None]"
  by code_simp

subsection \<open>The score formula\<close>






lemma phase2_start_ok: "placer_ok (phase2_start ld jitter)"
  unfolding phase2_start_def
  by (rule new_placer_ok) (use phase1_lessons_on_grid in simp)



subsection \<open>What Phase 2 keeps true of the schedule\<close>

lemma find_free_classroom_free:
  assumes "find_free_classroom p slot = Some c"
  shows "slot \<notin> set (dict_keys (classroom_schedule p (number c)))"
  using assms by (auto simp: find_free_classroom_def find_Some_iff)

lemma find_classroom_free:
  assumes "find_classroom p subj slot = Some c"
  shows "slot \<notin> set (dict_keys (classroom_schedule p (number c)))"
  using assms find_free_classroom_free [of p slot c]
  by (auto simp: find_classroom_def split: option.splits if_splits)

lemma hour_lesson_no_clash:
  assumes ok: "placer_ok p" and av: "is_slot_available p b subj"
    and x: "x \<in> set (lessons (p2_schedule p))"
  shows "\<not> share_teacher x (hour_lesson p subj b)"
    and "classes subj \<noteq> [] \<Longrightarrow> \<not> share_label x (hour_lesson p subj b)"
    and "\<not> share_classroom x (hour_lesson p subj b)"
proof -
  from ok have ce: "cache_exact p (lessons (p2_schedule p))" by (simp add: placer_ok_def)
  from av have "b \<notin> set (dict_keys (teacher_schedule p (name (subject_teacher subj))))"
    by (simp add: is_slot_available_iff)
  with ce have "b \<notin> slots_where (\<lambda>l. name (teacher l) = name (subject_teacher subj))
                     (lessons (p2_schedule p))"
    by (simp add: cache_exact_def)
  with x show "\<not> share_teacher x (hour_lesson p subj b)"
    by (auto simp: share_teacher_def hour_lesson_def slots_where_def)
  show "\<not> share_label x (hour_lesson p subj b)" if ne: "classes subj \<noteq> []"
  proof -
    from ne have "subject_class_name subj \<in> set (classes subj)"
      by (cases "classes subj") (simp_all add: subject_class_name_def)
    with av have "b \<notin> set (dict_keys (class_schedule p (subject_class_name subj)))"
      by (simp add: is_slot_available_iff)
    with ce have "b \<notin> slots_where (\<lambda>l. class_or_group l = subject_class_name subj)
                     (lessons (p2_schedule p))"
      by (simp add: cache_exact_def)
    with x show ?thesis
      by (auto simp: share_label_def hour_lesson_def slots_where_def)
  qed
  show "\<not> share_classroom x (hour_lesson p subj b)"
  proof (cases "find_classroom p subj b")
    case None
    then show ?thesis by (cases "classroom x") (auto simp: share_classroom_def hour_lesson_def)
  next
    case (Some c)
    from find_classroom_free [OF Some] ce
    have "b \<notin> slots_where (in_room (number c)) (lessons (p2_schedule p))"
      by (simp add: cache_exact_def)
    with x have "\<not> (in_room (number c) x \<and> time_slot x = b)"
      by (auto simp: slots_where_def)
    then show ?thesis using Some
      by (auto simp: share_classroom_def hour_lesson_def in_room_def)
  qed
qed

lemma teachers_available_snoc:
  "teachers_available (ls @ [l])
     \<longleftrightarrow> teachers_available ls \<and> is_available (teacher l) (day (time_slot l))"
  by (simp add: teachers_available_def)

text \<open>One hour keeps each of the four properties of the schedule.\<close>

lemma place_hour_keeps:
  assumes ok: "state_ok subj st"
  shows "teachers_available (lessons (p2_schedule (placer st)))
           \<Longrightarrow> teachers_available (lessons (p2_schedule (placer (place_hour subj st))))"
    and "no_two share_teacher (lessons (p2_schedule (placer st)))
           \<Longrightarrow> no_two share_teacher (lessons (p2_schedule (placer (place_hour subj st))))"
    and "classes subj \<noteq> [] \<Longrightarrow> no_two share_label (lessons (p2_schedule (placer st)))
           \<Longrightarrow> no_two share_label (lessons (p2_schedule (placer (place_hour subj st))))"
    and "no_two share_classroom (lessons (p2_schedule (placer st)))
           \<Longrightarrow> no_two share_classroom (lessons (p2_schedule (placer (place_hour subj st))))"
proof -
  from ok have pok: "placer_ok (placer st)" by (simp add: state_ok_def)
  consider (none) "find_best_slot (placer st) (scored_slots st) subj (days_used st) = None"
    | (some) b where "find_best_slot (placer st) (scored_slots st) subj (days_used st) = Some b"
    by (cases "find_best_slot (placer st) (scored_slots st) subj (days_used st)") auto
  note cs = this
  {
    assume a: "teachers_available (lessons (p2_schedule (placer st)))"
    from cs show "teachers_available (lessons (p2_schedule (placer (place_hour subj st))))"
    proof cases
      case none
      then show ?thesis using a place_hour_None(1) [OF none] by simp
    next
      case (some b)
      from find_best_slot_Some [OF some]
      have "is_available (subject_teacher subj) (day b)" by (simp add: is_slot_available_iff)
      then show ?thesis using a place_hour_Some(5) [OF some]
        by (simp add: teachers_available_snoc hour_lesson_def)
    qed
  }
  {
    assume a: "no_two share_teacher (lessons (p2_schedule (placer st)))"
    from cs show "no_two share_teacher (lessons (p2_schedule (placer (place_hour subj st))))"
    proof cases
      case none
      then show ?thesis using a place_hour_None(1) [OF none] by simp
    next
      case (some b)
      from find_best_slot_Some [OF some] have av: "is_slot_available (placer st) b subj" by simp
      show ?thesis using a place_hour_Some(5) [OF some] hour_lesson_no_clash(1) [OF pok av]
        by (simp add: no_two_snoc)
    qed
  }
  {
    assume ne: "classes subj \<noteq> []"
      and a: "no_two share_label (lessons (p2_schedule (placer st)))"
    from cs show "no_two share_label (lessons (p2_schedule (placer (place_hour subj st))))"
    proof cases
      case none
      then show ?thesis using a place_hour_None(1) [OF none] by simp
    next
      case (some b)
      from find_best_slot_Some [OF some] have av: "is_slot_available (placer st) b subj" by simp
      show ?thesis using a place_hour_Some(5) [OF some] hour_lesson_no_clash(2) [OF pok av _ ne]
        by (simp add: no_two_snoc)
    qed
  }
  {
    assume a: "no_two share_classroom (lessons (p2_schedule (placer st)))"
    from cs show "no_two share_classroom (lessons (p2_schedule (placer (place_hour subj st))))"
    proof cases
      case none
      then show ?thesis using a place_hour_None(1) [OF none] by simp
    next
      case (some b)
      from find_best_slot_Some [OF some] have av: "is_slot_available (placer st) b subj" by simp
      show ?thesis using a place_hour_Some(5) [OF some] hour_lesson_no_clash(3) [OF pok av]
        by (simp add: no_two_snoc)
    qed
  }
qed

lemma place_subject_keeps:
  assumes ok: "placer_ok p" and q: "Q (lessons (p2_schedule p))"
    and step: "\<And>st. state_ok subj st \<Longrightarrow> Q (lessons (p2_schedule (placer st)))
                 \<Longrightarrow> Q (lessons (p2_schedule (placer (place_hour subj st))))"
  shows "placer_ok (fst (place_subject lower p subj))
       \<and> Q (lessons (p2_schedule (fst (place_subject lower p subj))))"
proof -
  let ?st0 = "place_subject_state lower p subj"
  have "state_ok subj ((place_hour subj ^^ n) ?st0)
      \<and> Q (lessons (p2_schedule (placer ((place_hour subj ^^ n) ?st0))))" for n
  proof (induction n)
    case 0
    show ?case using state_ok_init [OF ok, of subj lower] q
      by (simp add: place_subject_state_def)
  next
    case (Suc n)
    then show ?case using state_ok_step step by simp
  qed
  then show ?thesis by (simp add: place_subject_def Let_def state_ok_def)
qed

lemma in_update_cases:
  assumes "(k', v') \<in> set (AList.update k v d)"
  shows "(k', v') \<in> set d \<or> (k' = k \<and> v' = v)"
  using assms by (induction d) (auto split: if_splits)

lemma dict_append_classes:
  assumes "\<forall>(c, ss)\<in>set d. \<forall>s\<in>set ss. c \<in> set (classes s)" and "k \<in> set (classes subj)"
  shows "\<forall>(c, ss)\<in>set (dict_append k subj d). \<forall>s\<in>set ss. c \<in> set (classes s)"
proof (cases "map_of d k")
  case None
  with assms show ?thesis by (auto simp: dict_append_def)
next
  case (Some vs)
  then have "(k, vs) \<in> set d" by (rule map_of_SomeD)
  with assms(1) have vs: "\<forall>s\<in>set vs. k \<in> set (classes s)" by auto
  show ?thesis
  proof (clarify)
    fix c ss s
    assume m: "(c, ss) \<in> set (dict_append k subj d)" and s: "s \<in> set ss"
    from m Some have "(c, ss) \<in> set (AList.update k (vs @ [subj]) d)"
      by (simp add: dict_append_def)
    from in_update_cases [OF this] show "c \<in> set (classes s)"
    proof
      assume "(c, ss) \<in> set d"
      with assms(1) s show ?thesis by auto
    next
      assume "c = k \<and> ss = vs @ [subj]"
      with s vs assms(2) show ?thesis by auto
    qed
  qed
qed

lemma group_by_class_classes:
  "\<forall>(c, ss)\<in>set (group_by_class subjs). \<forall>s\<in>set ss. c \<in> set (classes s)"
  unfolding group_by_class_def
proof (rule foldl_invariant [where P = "\<lambda>d. \<forall>(c, ss)\<in>set d. \<forall>s\<in>set ss. c \<in> set (classes s)"])
  show "\<forall>(c, ss)\<in>set []. \<forall>s\<in>set ss. c \<in> set (classes s)" by simp
next
  fix d :: "(string \<times> Subject list) list" and subj
  assume d: "\<forall>(c, ss)\<in>set d. \<forall>s\<in>set ss. c \<in> set (classes s)"
  show "\<forall>(c, ss)\<in>set (foldl (\<lambda>d class_name. dict_append class_name subj d) d (classes subj)).
          \<forall>s\<in>set ss. c \<in> set (classes s)"
    by (rule foldl_invariant [where P = "\<lambda>d. \<forall>(c, ss)\<in>set d. \<forall>s\<in>set ss. c \<in> set (classes s)"],
        rule d, rule dict_append_classes)
qed

text \<open>A property of the schedule that every hour keeps, for every subject with at least one
  cohort, is kept by the whole of Phase 2, and the placer stays sound.\<close>

lemma place_all_keeps:
  assumes ok: "placer_ok p" and q: "Q (lessons (p2_schedule p))"
    and step: "\<And>subj st. classes subj \<noteq> [] \<Longrightarrow> state_ok subj st
                 \<Longrightarrow> Q (lessons (p2_schedule (placer st)))
                 \<Longrightarrow> Q (lessons (p2_schedule (placer (place_hour subj st))))"
  shows "placer_ok (place_all_mandatory_subjects lower p)
       \<and> Q (lessons (p2_schedule (place_all_mandatory_subjects lower p)))"
proof -
  let ?I = "\<lambda>p. placer_ok p \<and> Q (lessons (p2_schedule p))"
  let ?groups = "group_by_class (sort_by_priority lower
      (filter (\<lambda>s. subject_type s = MANDATORY) (loader_subjects (p2_loader p))))"
  let ?p1 = "p\<lparr>stats := (stats p)\<lparr>total_required := sum_list (map hours_per_week
      (filter (\<lambda>s. subject_type s = MANDATORY) (loader_subjects (p2_loader p))))\<rparr>\<rparr>"
  have i1: "?I ?p1" using ok q by (simp add: placer_ok_stats)
  have "?I (foldl (place_class lower) ?p1 ?groups)"
  proof (rule foldl_invariant [where P = ?I], rule i1)
    fix p' :: Phase2MandatoryPlacer and entry
    assume i: "?I p'" and e: "entry \<in> set ?groups"
    have cls: "\<forall>s\<in>set (snd entry). classes s \<noteq> []"
    proof
      fix s assume "s \<in> set (snd entry)"
      with e group_by_class_classes have "fst entry \<in> set (classes s)"
        by (metis (no_types, lifting) case_prodD prod.collapse)
      then show "classes s \<noteq> []" by auto
    qed
    show "?I (place_class lower p' entry)"
      unfolding place_class_def
    proof (rule foldl_invariant [where P = ?I], rule i)
      fix q' :: Phase2MandatoryPlacer and subj
      assume iq: "?I q'" and m: "subj \<in> set (snd entry)"
      from cls m have ne: "classes subj \<noteq> []" by simp
      from iq show "?I (fst (place_subject lower q' subj))"
        using place_subject_keeps [where Q = Q, OF _ _ step [OF ne]] by blast
    qed
  qed
  then show ?thesis by (simp add: place_all_mandatory_subjects_def Let_def)
qed

lemma phase2_keeps_available:
  assumes "placer_ok p" and "teachers_available (lessons (p2_schedule p))"
  shows "teachers_available (lessons (p2_schedule (place_all_mandatory_subjects lower p)))"
  using place_all_keeps [where Q = teachers_available, OF assms] place_hour_keeps(1) by blast




section \<open>Phase 3: proofs\<close>

subsection \<open>Legality of a swap\<close>

lemma can_swap_iff:
  "can_swap opt i j \<longleftrightarrow>
     (let ls = p3_lessons opt; l1 = ls ! i; l2 = ls ! j;
          at1 = lessons_by_slot opt (time_slot l1); at2 = lessons_by_slot opt (time_slot l2)
      in time_slot l1 \<noteq> time_slot l2
       \<and> is_available (teacher l1) (day (time_slot l2))
       \<and> is_available (teacher l2) (day (time_slot l1))
       \<and> \<not> list_ex (\<lambda>r. ls ! r \<noteq> l2 \<and> name (teacher (ls ! r)) = name (teacher l1)) at2
       \<and> \<not> list_ex (\<lambda>r. ls ! r \<noteq> l1 \<and> name (teacher (ls ! r)) = name (teacher l2)) at1
       \<and> \<not> list_ex (\<lambda>r. ls ! r \<noteq> l2 \<and> class_or_group (ls ! r) = class_or_group l1) at2
       \<and> \<not> list_ex (\<lambda>r. ls ! r \<noteq> l1 \<and> class_or_group (ls ! r) = class_or_group l2) at1
       \<and> (classroom l1 \<noteq> None \<and> classroom l2 \<noteq> None \<longrightarrow>
            \<not> list_ex (\<lambda>r. ls ! r \<noteq> l2 \<and> classroom (ls ! r) = classroom l1) at2
          \<and> \<not> list_ex (\<lambda>r. ls ! r \<noteq> l1 \<and> classroom (ls ! r) = classroom l2) at1))"
  unfolding can_swap_def Let_def by (simp only: if_bool_eq_conj) blast

text \<open>
  C9. The swap-legality predicate is symmetric: for every optimizer state and every two
  lessons, \<open>_can_swap(a, b)\<close> and \<open>_can_swap(b, a)\<close> return the same boolean.
\<close>

theorem can_swap_symmetric: "can_swap opt i j = can_swap opt j i"
  unfolding can_swap_iff Let_def by (rule iffI) (simp_all add: neq_commute)

subsection \<open>Swapping two lessons\<close>

lemma swap_lessons_rest [simp]:
  "lessons_by_teacher (swap_lessons opt i j) = lessons_by_teacher opt"
  "lessons_by_class (swap_lessons opt i j) = lessons_by_class opt"
  "opt_stats (swap_lessons opt i j) = opt_stats opt"
  "min_temperature (swap_lessons opt i j) = min_temperature opt"
  "cooling_rate (swap_lessons opt i j) = cooling_rate opt"
  "initial_temperature (swap_lessons opt i j) = initial_temperature opt"
  "length (p3_lessons (swap_lessons opt i j)) = length (p3_lessons opt)"
  by (simp_all add: swap_lessons_def Let_def)

lemma swap_lessons_nth:
  assumes "i < length (p3_lessons opt)" and "j < length (p3_lessons opt)" and "i \<noteq> j"
  shows "p3_lessons (swap_lessons opt i j) ! i
           = (p3_lessons opt ! i)\<lparr>time_slot := time_slot (p3_lessons opt ! j)\<rparr>"
    and "p3_lessons (swap_lessons opt i j) ! j
           = (p3_lessons opt ! j)\<lparr>time_slot := time_slot (p3_lessons opt ! i)\<rparr>"
    and "r \<noteq> i \<Longrightarrow> r \<noteq> j \<Longrightarrow> p3_lessons (swap_lessons opt i j) ! r = p3_lessons opt ! r"
  using assms by (simp_all add: swap_lessons_def Let_def)

lemma swap_twice_lessons:
  assumes "i < length (p3_lessons opt)" and "j < length (p3_lessons opt)"
  shows "p3_lessons (swap_lessons (swap_lessons opt i j) i j) = p3_lessons opt"
proof (cases "i = j")
  case True
  with assms show ?thesis by (simp add: swap_lessons_def Let_def)
next
  case False
  let ?o = "swap_lessons opt i j"
  have l: "i < length (p3_lessons ?o)" "j < length (p3_lessons ?o)" using assms by simp_all
  show ?thesis
  proof (rule nth_equalityI)
    show "length (p3_lessons (swap_lessons ?o i j)) = length (p3_lessons opt)" by simp
  next
    fix r assume "r < length (p3_lessons (swap_lessons ?o i j))"
    show "p3_lessons (swap_lessons ?o i j) ! r = p3_lessons opt ! r"
    proof (cases "r = i \<or> r = j")
      case True
      then show ?thesis
        using swap_lessons_nth(1,2) [OF l False] swap_lessons_nth(1,2) [OF assms False]
        by auto
    next
      case False
      then show ?thesis
        using swap_lessons_nth(3) [OF l \<open>i \<noteq> j\<close>, of r] swap_lessons_nth(3) [OF assms \<open>i \<noteq> j\<close>, of r]
        by simp
    qed
  qed
qed

lemma remove_lesson_subset: "set (remove_lesson ls i xs) \<subseteq> set xs"
  by (induction xs) auto

lemma count_remove_lesson:
  assumes "distinct ls" and "\<forall>x\<in>set xs. x < length ls" and "i < length ls"
  shows "count_list (if lesson_in ls i xs then remove_lesson ls i xs else xs) r
       = count_list xs r - (if r = i then 1 else 0)"
proof -
  have eq: "ls ! x = ls ! i \<longleftrightarrow> x = i" if "x < length ls" for x
    using assms(1,3) that by (simp add: nth_eq_iff_index_eq)
  have in_iff: "lesson_in ls i xs \<longleftrightarrow> i \<in> set xs"
    using assms(2) eq by (auto simp: lesson_in_def list_ex_iff)
  have rm: "count_list (remove_lesson ls i xs) r = count_list xs r - (if r = i then 1 else 0)"
    using assms(2)
  proof (induction xs)
    case Nil
    show ?case by simp
  next
    case (Cons x xs)
    then have x: "x < length ls" by simp
    show ?case
    proof (cases "x = i")
      case True
      then show ?thesis by simp
    next
      case False
      with eq [OF x] have "ls ! x \<noteq> ls ! i" by simp
      then show ?thesis using Cons False by auto
    qed
  qed
  show ?thesis
  proof (cases "lesson_in ls i xs")
    case True
    then show ?thesis using rm by simp
  next
    case False
    with in_iff have "i \<notin> set xs" by simp
    then have "count_list xs i = 0" by (simp add: count_list_0_iff)
    with False show ?thesis by auto
  qed
qed

lemma index_ok_members:
  assumes "index_ok opt"
  shows "r \<in> set (lessons_by_slot opt s)
       \<longleftrightarrow> r < length (p3_lessons opt) \<and> time_slot (p3_lessons opt ! r) = s"
proof -
  have "r \<in> set (lessons_by_slot opt s) \<longleftrightarrow> count_list (lessons_by_slot opt s) r \<noteq> 0"
    by (simp add: count_list_0_iff)
  also have "\<dots> \<longleftrightarrow> r < length (p3_lessons opt) \<and> time_slot (p3_lessons opt ! r) = s"
    using assms by (simp add: index_ok_def)
  finally show ?thesis .
qed

lemma swap_by_slot_count:
  assumes ok: "index_ok opt" and d: "distinct (p3_lessons opt)"
    and i: "i < length (p3_lessons opt)" and j: "j < length (p3_lessons opt)"
  defines "s1 \<equiv> time_slot (p3_lessons opt ! i)" and "s2 \<equiv> time_slot (p3_lessons opt ! j)"
  shows "count_list (lessons_by_slot (swap_lessons opt i j) s) r
       = count_list (lessons_by_slot opt s) r
         - (if s = s1 \<and> r = i then 1 else 0) - (if s = s2 \<and> r = j then 1 else 0)
         + (if s = s2 \<and> r = i then 1 else 0) + (if s = s1 \<and> r = j then 1 else 0)"
proof -
  let ?ls = "p3_lessons opt"
  let ?A = "lessons_by_slot opt"
  define idx1 where "idx1 = (if lesson_in ?ls i (?A s1)
                  then ?A(s1 := remove_lesson ?ls i (?A s1)) else ?A)"
  define idx2 where "idx2 = (if lesson_in ?ls j (idx1 s2)
                  then idx1(s2 := remove_lesson ?ls j (idx1 s2)) else idx1)"
  have memA: "\<forall>x\<in>set (?A t). x < length ?ls" for t
    using index_ok_members [OF ok] by simp
  define rem1 where "rem1 = (if lesson_in ?ls i (?A s1) then remove_lesson ?ls i (?A s1) else ?A s1)"
  have idx1_at: "idx1 t = (if t = s1 then rem1 else ?A t)" for t
    by (simp add: idx1_def rem1_def)
  have r1: "count_list rem1 r = count_list (?A s1) r - (if r = i then 1 else 0)"
    unfolding rem1_def by (rule count_remove_lesson [OF d memA i])
  have c1: "count_list (idx1 t) r
      = count_list (?A t) r - (if t = s1 \<and> r = i then 1 else 0)" for t
  proof (cases "t = s1")
    case True
    then show ?thesis using r1 by (simp add: idx1_at)
  next
    case False
    then show ?thesis by (simp add: idx1_at)
  qed
  have "set rem1 \<subseteq> set (?A s1)"
    unfolding rem1_def using remove_lesson_subset [of ?ls i "?A s1"] by simp
  then have mem1: "\<forall>x\<in>set (idx1 t). x < length ?ls" for t
    using memA [of t] memA [of s1] by (auto simp: idx1_at)
  define rem2 where "rem2 = (if lesson_in ?ls j (idx1 s2) then remove_lesson ?ls j (idx1 s2) else idx1 s2)"
  have idx2_at: "idx2 t = (if t = s2 then rem2 else idx1 t)" for t
    by (simp add: idx2_def rem2_def)
  have r2: "count_list rem2 r = count_list (idx1 s2) r - (if r = j then 1 else 0)"
    unfolding rem2_def by (rule count_remove_lesson [OF d mem1 j])
  have c2: "count_list (idx2 t) r
      = count_list (idx1 t) r - (if t = s2 \<and> r = j then 1 else 0)" for t
  proof (cases "t = s2")
    case True
    then show ?thesis using r2 by (simp add: idx2_at)
  next
    case False
    then show ?thesis by (simp add: idx2_at)
  qed
  have res: "lessons_by_slot (swap_lessons opt i j)
      = (idx2(s2 := idx2 s2 @ [i]))(s1 := (idx2(s2 := idx2 s2 @ [i])) s1 @ [j])"
    by (simp add: swap_lessons_def Let_def idx1_def idx2_def s1_def s2_def)
  have "count_list (lessons_by_slot (swap_lessons opt i j) s) r
      = count_list (idx2 s) r
        + (if s = s2 \<and> r = i then 1 else 0) + (if s = s1 \<and> r = j then 1 else 0)"
    unfolding res by simp
  then show ?thesis by (simp only: c2 c1)
qed

lemma index_ok_swap:
  assumes ok: "index_ok opt" and d: "distinct (p3_lessons opt)"
    and i: "i < length (p3_lessons opt)" and j: "j < length (p3_lessons opt)" and ne: "i \<noteq> j"
  shows "index_ok (swap_lessons opt i j)"
  unfolding index_ok_def
proof (intro allI)
  fix s r
  let ?ls = "p3_lessons opt"
  have A: "count_list (lessons_by_slot opt t) x
      = (if x < length ?ls \<and> time_slot (?ls ! x) = t then 1 else 0)" for t x
    using ok by (simp add: index_ok_def)
  note n = swap_lessons_nth [OF i j ne]
  consider "r = i" | "r = j" | "r \<noteq> i" "r \<noteq> j" by blast
  then show "count_list (lessons_by_slot (swap_lessons opt i j) s) r
      = (if r < length (p3_lessons (swap_lessons opt i j))
            \<and> time_slot (p3_lessons (swap_lessons opt i j) ! r) = s then 1 else 0)"
  proof cases
    case 1
    then show ?thesis
      unfolding swap_by_slot_count [OF ok d i j] A using i j ne n(1) by auto
  next
    case 2
    then show ?thesis
      unfolding swap_by_slot_count [OF ok d i j] A using i j ne n(2) by auto
  next
    case 3
    then show ?thesis
      unfolding swap_by_slot_count [OF ok d i j] A using n(3) [OF 3] by auto
  qed
qed

lemma list_count_mset:
  assumes "\<forall>r. count_list xs r = count_list ys r"
  shows "mset xs = mset ys"
  using assms by (simp add: multiset_eq_iff count_mset)

subsection \<open>The indices as built\<close>

lemma index_lesson_lessons [simp]: "p3_lessons (index_lesson opt r) = p3_lessons opt"
  by (simp add: index_lesson_def Let_def)

lemma foldl_index_lesson_lessons [simp]:
  "p3_lessons (foldl index_lesson opt rs) = p3_lessons opt"
  by (induction rs arbitrary: opt) simp_all

lemma foldl_index_lesson_by_slot:
  "lessons_by_slot (foldl index_lesson opt rs) s
     = lessons_by_slot opt s @ filter (\<lambda>r. time_slot (p3_lessons opt ! r) = s) rs"
proof (induction rs arbitrary: opt)
  case Nil
  show ?case by simp
next
  case (Cons r rs)
  show ?case using Cons.IH [of "index_lesson opt r"]
    by (simp add: index_lesson_def Let_def)
qed

lemma build_indices_lessons [simp]: "p3_lessons (build_indices opt) = p3_lessons opt"
  by (simp add: build_indices_def)

lemma build_indices_by_slot:
  "lessons_by_slot (build_indices opt) s
     = filter (\<lambda>r. time_slot (p3_lessons opt ! r) = s) [0..<length (p3_lessons opt)]"
  by (simp add: build_indices_def foldl_index_lesson_by_slot)

lemma count_list_filter_upt:
  "count_list (filter P [0..<n]) r = (if r < n \<and> P r then 1 else 0)"
  by (induction n) auto

lemma build_indices_ok: "index_ok (build_indices opt)"
  by (simp add: index_ok_def build_indices_by_slot count_list_filter_upt)

lemma new_optimizer_lessons [simp]: "p3_lessons (new_optimizer s) = lessons s"
  by (simp add: new_optimizer_def)

lemma new_optimizer_ok: "index_ok (new_optimizer s)"
  unfolding new_optimizer_def by (rule build_indices_ok)

subsection \<open>What an admitted swap keeps true\<close>

lemma find_swap_candidates_mem:
  "j \<in> set (find_swap_candidates opt i) \<longleftrightarrow>
     j < length (p3_lessons opt) \<and> p3_lessons opt ! j \<noteq> p3_lessons opt ! i
   \<and> \<not> (is_ege_practice (p3_lessons opt ! i) \<and> is_ege_practice (p3_lessons opt ! j))
   \<and> can_swap opt i j"
  by (auto simp: find_swap_candidates_def Let_def)

lemma no_two_nth:
  assumes "\<And>a b. R a b \<Longrightarrow> R b a"
  shows "no_two R ls \<longleftrightarrow> (\<forall>a<length ls. \<forall>b<length ls. a \<noteq> b \<longrightarrow> \<not> R (ls ! a) (ls ! b))"
proof
  assume n: "no_two R ls"
  show "\<forall>a<length ls. \<forall>b<length ls. a \<noteq> b \<longrightarrow> \<not> R (ls ! a) (ls ! b)"
  proof (intro allI impI)
    fix a b assume ab: "a < length ls" "b < length ls" "a \<noteq> b"
    from n have s: "\<forall>i j. i < j \<longrightarrow> j < length ls \<longrightarrow> \<not> R (ls ! i) (ls ! j)"
      by (simp add: no_two_def sorted_wrt_iff_nth_less)
    show "\<not> R (ls ! a) (ls ! b)"
    proof (cases "a < b")
      case True
      with s ab show ?thesis by blast
    next
      case False
      with ab have "b < a" by simp
      with s ab have "\<not> R (ls ! b) (ls ! a)" by blast
      with assms show ?thesis by blast
    qed
  qed
next
  assume "\<forall>a<length ls. \<forall>b<length ls. a \<noteq> b \<longrightarrow> \<not> R (ls ! a) (ls ! b)"
  then show "no_two R ls"
    by (auto simp: no_two_def sorted_wrt_iff_nth_less)
qed

lemma share_teacher_sym: "share_teacher a b \<Longrightarrow> share_teacher b a"
  by (simp add: share_teacher_def)

lemma share_label_sym: "share_label a b \<Longrightarrow> share_label b a"
  by (simp add: share_label_def)


lemma candidate_available:
  assumes ta: "teachers_available (p3_lessons opt)"
    and i: "i < length (p3_lessons opt)" and c: "j \<in> set (find_swap_candidates opt i)"
  shows "teachers_available (p3_lessons (swap_lessons opt i j))"
proof -
  from c have j: "j < length (p3_lessons opt)" and ne: "i \<noteq> j" and cs: "can_swap opt i j"
    by (auto simp: find_swap_candidates_mem)
  note n = swap_lessons_nth [OF i j ne]
  have "is_available (teacher (p3_lessons (swap_lessons opt i j) ! r))
          (day (time_slot (p3_lessons (swap_lessons opt i j) ! r)))"
    if r: "r < length (p3_lessons opt)" for r
  proof -
    consider "r = i" | "r = j" | "r \<noteq> i" "r \<noteq> j" by blast
    then show ?thesis
    proof cases
      case 1
      then show ?thesis using cs n(1) by (simp add: can_swap_iff Let_def)
    next
      case 2
      then show ?thesis using cs n(2) by (simp add: can_swap_iff Let_def)
    next
      case 3
      then show ?thesis using ta r n(3) [OF 3]
        by (simp add: teachers_available_def list_all_length)
    qed
  qed
  then show ?thesis by (simp add: teachers_available_def list_all_length)
qed

text \<open>The common argument for teachers and labels: \<open>f\<close> is the field two lessons must not
  share at one slot, \<open>g\<close> what \<open>_can_swap\<close> compares.\<close>

lemma swap_keeps_no_two:
  fixes f :: "Lesson \<Rightarrow> 'k" and g :: "Lesson \<Rightarrow> 'g"
  assumes R: "\<And>a b. R a b \<longleftrightarrow> f a = f b \<and> time_slot a = time_slot b"
    and f_slot: "\<And>l s. f (l\<lparr>time_slot := s\<rparr>) = f l"
    and fg: "\<And>a b. f a = f b \<Longrightarrow> g a = g b"
    and ok: "index_ok opt" and nt: "no_two R (p3_lessons opt)"
    and i: "i < length (p3_lessons opt)" and j: "j < length (p3_lessons opt)" and ne: "i \<noteq> j"
    and slots: "time_slot (p3_lessons opt ! i) \<noteq> time_slot (p3_lessons opt ! j)"
    and chk2: "\<not> list_ex (\<lambda>r. p3_lessons opt ! r \<noteq> p3_lessons opt ! j
                   \<and> g (p3_lessons opt ! r) = g (p3_lessons opt ! i))
                 (lessons_by_slot opt (time_slot (p3_lessons opt ! j)))"
    and chk1: "\<not> list_ex (\<lambda>r. p3_lessons opt ! r \<noteq> p3_lessons opt ! i
                   \<and> g (p3_lessons opt ! r) = g (p3_lessons opt ! j))
                 (lessons_by_slot opt (time_slot (p3_lessons opt ! i)))"
  shows "no_two R (p3_lessons (swap_lessons opt i j))"
proof -
  let ?ls = "p3_lessons opt" and ?ls' = "p3_lessons (swap_lessons opt i j)"
  have sym: "R a b \<Longrightarrow> R b a" for a b by (simp add: R)
  note n = swap_lessons_nth [OF i j ne]
  from nt have old: "\<not> R (?ls ! a) (?ls ! b)"
    if "a < length ?ls" "b < length ?ls" "a \<noteq> b" for a b
    using that no_two_nth [of R ?ls] sym by blast
  have moved: "\<not> R (?ls' ! x) (?ls ! r)"
    if x: "x < length ?ls" "y < length ?ls" "x \<noteq> y"
      and sw: "?ls' ! x = (?ls ! x)\<lparr>time_slot := time_slot (?ls ! y)\<rparr>"
      and chk: "\<not> list_ex (\<lambda>r. ?ls ! r \<noteq> ?ls ! y \<and> g (?ls ! r) = g (?ls ! x))
                 (lessons_by_slot opt (time_slot (?ls ! y)))"
      and r: "r < length ?ls" "r \<noteq> x" "r \<noteq> y" for x y r
  proof
    assume "R (?ls' ! x) (?ls ! r)"
    then have fe: "f (?ls ! x) = f (?ls ! r)" and te: "time_slot (?ls ! r) = time_slot (?ls ! y)"
      by (simp_all add: R sw f_slot)
    from te r(1) have "r \<in> set (lessons_by_slot opt (time_slot (?ls ! y)))"
      by (simp add: index_ok_members [OF ok])
    with chk have "\<not> (?ls ! r \<noteq> ?ls ! y \<and> g (?ls ! r) = g (?ls ! x))"
      by (auto simp: list_ex_iff)
    with fg [OF fe] have "?ls ! r = ?ls ! y" by simp
    then have "R (?ls ! r) (?ls ! y)" by (simp add: R)
    with old [OF r(1) x(2) r(3)] show False by simp
  qed
  have "\<not> R (?ls' ! a) (?ls' ! b)"
    if ab: "a < length ?ls" "b < length ?ls" "a \<noteq> b" for a b
  proof -
    consider (ij) "a = i" "b = j" | (ji) "a = j" "b = i"
      | (ir) "a = i" "b \<noteq> i" "b \<noteq> j" | (jr) "a = j" "b \<noteq> i" "b \<noteq> j"
      | (ri) "b = i" "a \<noteq> i" "a \<noteq> j" | (rj) "b = j" "a \<noteq> i" "a \<noteq> j"
      | (rr) "a \<noteq> i" "a \<noteq> j" "b \<noteq> i" "b \<noteq> j"
      using ab(3) by blast
    then show ?thesis
    proof cases
      case ij
      then show ?thesis using slots n(1,2) by (auto simp: R)
    next
      case ji
      then show ?thesis using slots n(1,2) by (auto simp: R)
    next
      case ir
      have "\<not> R (?ls' ! i) (?ls ! b)"
        by (rule moved [OF i j ne n(1) chk2 ab(2) ir(2,3)])
      then show ?thesis using ir n(3) [of b] by simp
    next
      case jr
      have "\<not> R (?ls' ! j) (?ls ! b)"
        by (rule moved [OF j i ne [symmetric] n(2) chk1 ab(2) jr(3,2)])
      then show ?thesis using jr n(3) [of b] by simp
    next
      case ri
      have "\<not> R (?ls' ! i) (?ls ! a)"
        by (rule moved [OF i j ne n(1) chk2 ab(1) ri(2,3)])
      then show ?thesis using ri n(3) [of a] sym by auto
    next
      case rj
      have "\<not> R (?ls' ! j) (?ls ! a)"
        by (rule moved [OF j i ne [symmetric] n(2) chk1 ab(1) rj(3,2)])
      then show ?thesis using rj n(3) [of a] sym by auto
    next
      case rr
      then show ?thesis using old [OF ab] n(3) [of a] n(3) [of b] by simp
    qed
  qed
  then show ?thesis using no_two_nth [of R ?ls'] sym by simp
qed



lemma no_two_eq_distinct: "no_two (=) ls \<longleftrightarrow> distinct ls"
  by (induction ls) (auto simp: no_two_def)

lemma candidate_distinct:
  assumes ok: "index_ok opt" and d: "distinct (p3_lessons opt)"
    and i: "i < length (p3_lessons opt)" and c: "j \<in> set (find_swap_candidates opt i)"
  shows "distinct (p3_lessons (swap_lessons opt i j))"
proof -
  from c have j: "j < length (p3_lessons opt)" and ne: "i \<noteq> j" and cs: "can_swap opt i j"
    by (auto simp: find_swap_candidates_mem)
  let ?f = "\<lambda>l::Lesson. l\<lparr>time_slot := \<lparr>day = MONDAY, lesson_number = 0\<rparr>\<rparr>"
  have R: "(a = b) \<longleftrightarrow> ?f a = ?f b \<and> time_slot a = time_slot b" for a b :: Lesson
    by (cases a, cases b) auto
  have fg: "?f a = ?f b \<Longrightarrow> name (teacher a) = name (teacher b)" for a b :: Lesson
    by (cases a, cases b) auto
  from d have nt: "no_two (=) (p3_lessons opt)" by (simp add: no_two_eq_distinct)
  from cs have "no_two (=) (p3_lessons (swap_lessons opt i j))"
    by (intro swap_keeps_no_two [where f = ?f and g = "\<lambda>l. name (teacher l)", OF R _ fg ok nt i j ne])
       (simp_all add: can_swap_iff Let_def)
  then show ?thesis by (simp add: no_two_eq_distinct)
qed

text \<open>
  C10 (as amended). For a pair of lessons that \<open>_find_swap_candidates\<close> admits, in an
  optimizer whose slot index agrees with its lessons and whose lessons are pairwise
  different, applying \<open>_swap_lessons\<close> twice restores every lesson, its \<open>time_slot\<close>
  included, and leaves the teacher and class indices as they were; the list that
  \<open>lessons_by_slot\<close> keeps for each slot holds the same lessons as before, though not
  always in the same order.
\<close>

theorem swap_twice_restores:
  assumes "index_ok opt" and "distinct (p3_lessons opt)"
    and "i < length (p3_lessons opt)" and "j \<in> set (find_swap_candidates opt i)"
  shows "p3_lessons (swap_lessons (swap_lessons opt i j) i j) = p3_lessons opt
       \<and> (\<forall>s. mset (lessons_by_slot (swap_lessons (swap_lessons opt i j) i j) s)
                = mset (lessons_by_slot opt s))
       \<and> lessons_by_teacher (swap_lessons (swap_lessons opt i j) i j) = lessons_by_teacher opt
       \<and> lessons_by_class (swap_lessons (swap_lessons opt i j) i j) = lessons_by_class opt"
proof -
  from assms(4) have j: "j < length (p3_lessons opt)" and ne: "i \<noteq> j"
    by (auto simp: find_swap_candidates_mem)
  let ?o1 = "swap_lessons opt i j"
  let ?o2 = "swap_lessons ?o1 i j"
  have ok1: "index_ok ?o1" by (rule index_ok_swap [OF assms(1,2,3) j ne])
  have d1: "distinct (p3_lessons ?o1)" by (rule candidate_distinct [OF assms])
  have ok2: "index_ok ?o2" by (rule index_ok_swap [OF ok1 d1 _ _ ne]) (use assms(3) j in simp_all)
  have restored: "p3_lessons ?o2 = p3_lessons opt" by (rule swap_twice_lessons [OF assms(3) j])
  have "count_list (lessons_by_slot ?o2 s) r = count_list (lessons_by_slot opt s) r" for s r
    using ok2 assms(1) by (simp add: index_ok_def restored)
  then have "mset (lessons_by_slot ?o2 s) = mset (lessons_by_slot opt s)" for s
    by (intro list_count_mset) simp
  with restored show ?thesis by simp
qed

theorem swap_twice_restores_witness:
  "index_ok optimizer_three \<and> distinct (p3_lessons optimizer_three)
   \<and> 1 < length (p3_lessons optimizer_three)
   \<and> 0 \<in> set (find_swap_candidates optimizer_three 1)
   \<and> p3_lessons (swap_lessons (swap_lessons optimizer_three 1 0) 1 0)
       = [lesson_maths, lesson_art, lesson_singing]
   \<and> mset (lessons_by_slot (swap_lessons (swap_lessons optimizer_three 1 0) 1 0)
             \<lparr>day = MONDAY, lesson_number = 5\<rparr>) = {#1, 2#}"
proof -
  have h1: "index_ok optimizer_three" unfolding optimizer_three_def by (rule new_optimizer_ok)
  have ls: "p3_lessons optimizer_three = [lesson_maths, lesson_art, lesson_singing]"
    by (simp add: optimizer_three_def schedule_three_def)
  have h2: "distinct (p3_lessons optimizer_three)"
    unfolding ls by (simp add: lesson_maths_def lesson_art_def lesson_singing_def)
  have h3: "1 < length (p3_lessons optimizer_three)" by (simp add: ls)
  have h4: "0 \<in> set (find_swap_candidates optimizer_three 1)" by code_simp
  have b: "lessons_by_slot optimizer_three \<lparr>day = MONDAY, lesson_number = 5\<rparr> = [1, 2]"
    by code_simp
  from swap_twice_restores [OF h1 h2 h3 h4] h1 h2 h3 h4 ls b show ?thesis by simp
qed

text \<open>
  C10, as stated, fails for the order within a slot's list: art and singing are both on
  Monday at period 5, so that slot's list is [art, singing]; swapping art with mathematics
  and swapping them again leaves [singing, art].
\<close>

theorem swap_twice_order_counterexample:
  "0 \<in> set (find_swap_candidates optimizer_three 1)
   \<and> lessons_by_slot optimizer_three \<lparr>day = MONDAY, lesson_number = 5\<rparr> = [1, 2]
   \<and> lessons_by_slot (swap_lessons (swap_lessons optimizer_three 1 0) 1 0)
        \<lparr>day = MONDAY, lesson_number = 5\<rparr> = [2, 1]"
  by code_simp

theorem can_swap_symmetric_witness:
  "can_swap optimizer_three 0 2 \<and> can_swap optimizer_three 2 0
   \<and> \<not> can_swap optimizer_three 1 2 \<and> \<not> can_swap optimizer_three 2 1"
proof -
  have "can_swap optimizer_three 0 2" and "\<not> can_swap optimizer_three 1 2" by code_simp+
  then show ?thesis
    using can_swap_symmetric [of optimizer_three 0 2] can_swap_symmetric [of optimizer_three 1 2]
    by simp
qed

text \<open>
  C5: the code breaks the claim where one of the two lessons has no classroom. Phase 2
  builds the schedule of three lessons (mathematics on Monday at period 2 in room 101, art
  on Monday at period 5 in room 101, singing on Monday at period 5 without a room), in
  which no classroom is double-booked. \<open>_find_swap_candidates\<close> admits swapping
  mathematics with singing: singing has no classroom, so the classroom checks of
  \<open>_can_swap\<close> are skipped. After the swap mathematics and art are both in room 101 on
  Monday at period 5.
\<close>

theorem swap_admits_classroom_double_booking:
  "p2_schedule (place_all_mandatory_subjects id (phase2_start loader_three no_jitter))
     = schedule_three
   \<and> no_two share_classroom (p3_lessons optimizer_three)
   \<and> 2 \<in> set (find_swap_candidates optimizer_three 0)
   \<and> share_classroom (p3_lessons (swap_lessons optimizer_three 0 2) ! 0)
        (p3_lessons (swap_lessons optimizer_three 0 2) ! 1)
   \<and> \<not> no_two share_classroom (p3_lessons (swap_lessons optimizer_three 0 2))"
  by code_simp

subsection \<open>One iteration of the annealing loop\<close>

lemma copy_schedule_eq: "copy_schedule opt = \<lparr>lessons = p3_lessons opt\<rparr>"
  by (simp add: copy_schedule_def map_idI)

lemma stats_irrelevant [simp]:
  "can_swap (opt\<lparr>opt_stats := s\<rparr>) i j = can_swap opt i j"
  "find_swap_candidates (opt\<lparr>opt_stats := s\<rparr>) i = find_swap_candidates opt i"
  "swap_lessons (opt\<lparr>opt_stats := s\<rparr>) i j = (swap_lessons opt i j)\<lparr>opt_stats := s\<rparr>"
  "calculate_quality_metric lower (opt\<lparr>opt_stats := s\<rparr>) = calculate_quality_metric lower opt"
  "copy_schedule (opt\<lparr>opt_stats := s\<rparr>) = copy_schedule opt"
  "index_ok (opt\<lparr>opt_stats := s\<rparr>) = index_ok opt"
  by (simp_all add: can_swap_def find_swap_candidates_def swap_lessons_def Let_def
        calculate_quality_metric_def count_teacher_gaps_def count_class_gaps_def
        count_suboptimal_timing_def calculate_daily_variance_def calculate_schedule_spread_def
        copy_schedule_def index_ok_def)

lemma problem_scan_subset:
  "problem_scan lower opt rs = Inr ps \<Longrightarrow> set ps \<subseteq> set rs"
  by (induction rs arbitrary: ps) (auto split: if_splits sum.splits)

lemma choice_mem: "xs \<noteq> [] \<Longrightarrow> choice xs k \<in> set xs"
  by (simp add: choice_def)

lemma find_and_try_swap_Some:
  assumes "find_and_try_swap lower opt d = Inr (Some (i, j, m, opt'))"
  shows "i < length (p3_lessons opt)" and "j \<in> set (find_swap_candidates opt i)"
    and "opt' = swap_lessons opt i j" and "m = calculate_quality_metric lower (swap_lessons opt i j)"
proof -
  let ?n = "length (p3_lessons opt)"
  from assms have n: "\<not> ?n < 2"
    by (auto simp: find_and_try_swap_def split: if_splits)
  from assms n obtain ps where ps: "find_problem_lessons lower opt = Inr ps"
    by (auto simp: find_and_try_swap_def split: sum.splits)
  define l1 where "l1 = (if ps \<noteq> [] \<and> focus_draw d < 7 / 10
                     then choice ps (first_choice d)
                     else choice [0..<?n] (first_choice d))"
  from assms n ps have c: "find_swap_candidates opt l1 \<noteq> []"
    and r: "(i, j, m, opt') = (l1, choice (find_swap_candidates opt l1) (second_choice d),
          calculate_quality_metric lower
            (swap_lessons opt l1 (choice (find_swap_candidates opt l1) (second_choice d))),
          swap_lessons opt l1 (choice (find_swap_candidates opt l1) (second_choice d)))"
    by (auto simp: find_and_try_swap_def Let_def l1_def split: if_splits)
  from r have e: "i = l1" "j = choice (find_swap_candidates opt l1) (second_choice d)"
    "m = calculate_quality_metric lower (swap_lessons opt i j)" "opt' = swap_lessons opt i j"
    by simp_all
  have sub: "set ps \<subseteq> set [0..<?n]"
    by (rule problem_scan_subset [of lower opt]) (use ps in \<open>simp add: find_problem_lessons_def\<close>)
  have ne: "[0..<?n] \<noteq> []" using n by (cases "p3_lessons opt") auto
  have "l1 \<in> set [0..<?n]"
  proof (cases "ps \<noteq> [] \<and> focus_draw d < 7 / 10")
    case True
    then have "l1 = choice ps (first_choice d)" unfolding l1_def by (rule if_P)
    moreover from True have "choice ps (first_choice d) \<in> set ps" by (intro choice_mem) simp
    ultimately show ?thesis using sub by blast
  next
    case False
    then have "l1 = choice [0..<?n] (first_choice d)" unfolding l1_def by (rule if_not_P)
    then show ?thesis using choice_mem [OF ne] by simp
  qed
  with e(1) show "i < ?n" by simp
  from e(1,2) choice_mem [OF c] show "j \<in> set (find_swap_candidates opt i)" by simp
  from e show "opt' = swap_lessons opt i j"
    and "m = calculate_quality_metric lower (swap_lessons opt i j)" by simp_all
qed

subsection \<open>The teacher and class indices\<close>

lemma foldl_index_lesson_by_teacher:
  "lessons_by_teacher (foldl index_lesson opt rs)
     = foldl (\<lambda>d r. dict_append (name (teacher (p3_lessons opt ! r))) r d) (lessons_by_teacher opt) rs"
proof (induction rs arbitrary: opt)
  case Nil
  show ?case by simp
next
  case (Cons r rs)
  show ?case using Cons.IH [of "index_lesson opt r"]
    by (simp add: index_lesson_def Let_def)
qed

lemma foldl_index_lesson_by_class:
  "lessons_by_class (foldl index_lesson opt rs)
     = foldl (\<lambda>d r. dict_append (class_or_group (p3_lessons opt ! r)) r d) (lessons_by_class opt) rs"
proof (induction rs arbitrary: opt)
  case Nil
  show ?case by simp
next
  case (Cons r rs)
  show ?case using Cons.IH [of "index_lesson opt r"]
    by (simp add: index_lesson_def Let_def)
qed

lemma build_indices_as_built: "indices_as_built (build_indices opt)"
  by (simp add: indices_as_built_def build_indices_def foldl_index_lesson_by_teacher
        foldl_index_lesson_by_class teacher_index_def class_index_def)

lemma foldl_cong_upt:
  assumes "\<And>r. r \<in> set rs \<Longrightarrow> f r = g r"
  shows "foldl (\<lambda>d r. dict_append (f r) r d) d0 rs = foldl (\<lambda>d r. dict_append (g r) r d) d0 rs"
  using assms by (induction rs arbitrary: d0) simp_all

lemma swap_keeps_indices:
  assumes "i < length (p3_lessons opt)" and "j < length (p3_lessons opt)"
  shows "teacher_index (p3_lessons (swap_lessons opt i j)) = teacher_index (p3_lessons opt)"
    and "class_index (p3_lessons (swap_lessons opt i j)) = class_index (p3_lessons opt)"
proof -
  have e: "teacher (p3_lessons (swap_lessons opt i j) ! r) = teacher (p3_lessons opt ! r)
         \<and> class_or_group (p3_lessons (swap_lessons opt i j) ! r) = class_or_group (p3_lessons opt ! r)"
    if "r < length (p3_lessons opt)" for r
    using assms that by (simp add: swap_lessons_def Let_def nth_list_update)
  have "foldl (\<lambda>d r. dict_append (name (teacher (p3_lessons (swap_lessons opt i j) ! r))) r d) []
          [0..<length (p3_lessons opt)]
      = foldl (\<lambda>d r. dict_append (name (teacher (p3_lessons opt ! r))) r d) []
          [0..<length (p3_lessons opt)]"
    by (rule foldl_cong_upt) (use e in simp)
  then show "teacher_index (p3_lessons (swap_lessons opt i j)) = teacher_index (p3_lessons opt)"
    by (simp add: teacher_index_def)
  have "foldl (\<lambda>d r. dict_append (class_or_group (p3_lessons (swap_lessons opt i j) ! r)) r d) []
          [0..<length (p3_lessons opt)]
      = foldl (\<lambda>d r. dict_append (class_or_group (p3_lessons opt ! r)) r d) []
          [0..<length (p3_lessons opt)]"
    by (rule foldl_cong_upt) (use e in simp)
  then show "class_index (p3_lessons (swap_lessons opt i j)) = class_index (p3_lessons opt)"
    by (simp add: class_index_def)
qed

text \<open>What one iteration does to the lessons, the indices, the current metric and the best
  snapshot: nothing (no swap tried), a swap kept as an improvement, a swap kept although
  worse, or a swap undone.\<close>

lemma anneal_step_effect:
  assumes "anneal_step lower d it st = Inr (st', b)"
  obtains
    (skip) "p3_lessons (optimizer st') = p3_lessons (optimizer st)"
      "lessons_by_slot (optimizer st') = lessons_by_slot (optimizer st)"
      "best_schedule st' = best_schedule st" "best_metric st' = best_metric st"
      "current_metric st' = current_metric st"
      "step_metric lower d it st = None"
      "lessons_by_teacher (optimizer st') = lessons_by_teacher (optimizer st)"
      "lessons_by_class (optimizer st') = lessons_by_class (optimizer st)"
  | (improved) i j where "i < length (p3_lessons (optimizer st))"
      "j \<in> set (find_swap_candidates (optimizer st) i)"
      "calculate_quality_metric lower (swap_lessons (optimizer st) i j) < current_metric st"
      "p3_lessons (optimizer st') = p3_lessons (swap_lessons (optimizer st) i j)"
      "lessons_by_slot (optimizer st') = lessons_by_slot (swap_lessons (optimizer st) i j)"
      "current_metric st' = calculate_quality_metric lower (swap_lessons (optimizer st) i j)"
      "if calculate_quality_metric lower (swap_lessons (optimizer st) i j) < best_metric st
       then best_metric st' = calculate_quality_metric lower (swap_lessons (optimizer st) i j)
          \<and> best_schedule st' = \<lparr>lessons = p3_lessons (swap_lessons (optimizer st) i j)\<rparr>
       else best_metric st' = best_metric st \<and> best_schedule st' = best_schedule st"
      "step_metric lower d it st
         = Some (calculate_quality_metric lower (swap_lessons (optimizer st) i j))"
      "lessons_by_teacher (optimizer st') = lessons_by_teacher (optimizer st)"
      "lessons_by_class (optimizer st') = lessons_by_class (optimizer st)"
  | (worse) i j where "i < length (p3_lessons (optimizer st))"
      "j \<in> set (find_swap_candidates (optimizer st) i)"
      "\<not> calculate_quality_metric lower (swap_lessons (optimizer st) i j) < current_metric st"
      "p3_lessons (optimizer st') = p3_lessons (swap_lessons (optimizer st) i j)"
      "lessons_by_slot (optimizer st') = lessons_by_slot (swap_lessons (optimizer st) i j)"
      "current_metric st' = calculate_quality_metric lower (swap_lessons (optimizer st) i j)"
      "best_schedule st' = best_schedule st" "best_metric st' = best_metric st"
      "step_metric lower d it st
         = Some (calculate_quality_metric lower (swap_lessons (optimizer st) i j))"
      "lessons_by_teacher (optimizer st') = lessons_by_teacher (optimizer st)"
      "lessons_by_class (optimizer st') = lessons_by_class (optimizer st)"
  | (undone) i j where "i < length (p3_lessons (optimizer st))"
      "j \<in> set (find_swap_candidates (optimizer st) i)"
      "\<not> calculate_quality_metric lower (swap_lessons (optimizer st) i j) < current_metric st"
      "p3_lessons (optimizer st')
         = p3_lessons (swap_lessons (swap_lessons (optimizer st) i j) i j)"
      "lessons_by_slot (optimizer st')
         = lessons_by_slot (swap_lessons (swap_lessons (optimizer st) i j) i j)"
      "current_metric st' = current_metric st"
      "best_schedule st' = best_schedule st" "best_metric st' = best_metric st"
      "step_metric lower d it st
         = Some (calculate_quality_metric lower (swap_lessons (optimizer st) i j))"
      "lessons_by_teacher (optimizer st') = lessons_by_teacher (optimizer st)"
      "lessons_by_class (optimizer st') = lessons_by_class (optimizer st)"
proof -
  define opt1 where "opt1 = (optimizer st)
            \<lparr>opt_stats := (opt_stats (optimizer st))\<lparr>iterations := it + 1\<rparr>\<rparr>"
  show ?thesis
  proof (cases "find_and_try_swap lower opt1 d")
    case (Inl e)
    with assms show ?thesis by (simp add: anneal_step_def Let_def opt1_def)
  next
    case (Inr res)
    show ?thesis
    proof (cases res)
      case None
      with Inr assms have "st' = st\<lparr>optimizer := opt1\<rparr>"
        by (simp add: anneal_step_def Let_def opt1_def)
      moreover from Inr None have "step_metric lower d it st = None"
        by (simp add: step_metric_def opt1_def)
      ultimately show ?thesis by (intro skip) (simp_all add: opt1_def)
    next
      case (Some t)
      obtain i j m opt2 where t: "t = (i, j, m, opt2)" by (cases t) auto
      with Inr Some have f: "find_and_try_swap lower opt1 d = Inr (Some (i, j, m, opt2))" by simp
      let ?sw = "swap_lessons (optimizer st) i j"
      from find_and_try_swap_Some [OF f]
      have i: "i < length (p3_lessons (optimizer st))"
        and j: "j \<in> set (find_swap_candidates (optimizer st) i)"
        and o2: "opt2 = ?sw\<lparr>opt_stats := (opt_stats (optimizer st))\<lparr>iterations := it + 1\<rparr>\<rparr>"
        and m: "m = calculate_quality_metric lower ?sw"
        by (simp_all add: opt1_def)
      from f have sm: "step_metric lower d it st = Some (calculate_quality_metric lower ?sw)"
        by (simp add: step_metric_def opt1_def m)
      define st1 where "st1 =
         (if m - current_metric st < 0
          then
            (let opt3 = opt2\<lparr>opt_stats := (opt_stats opt2)
                          \<lparr>improvements := improvements (opt_stats opt2) + 1\<rparr>\<rparr>;
                 st' = st\<lparr>optimizer := opt3, current_metric := m, no_improvement_count := 0\<rparr>
             in if m < best_metric st
                then st'\<lparr>best_metric := m, best_schedule := copy_schedule opt3\<rparr>
                else st')
          else if accept_draw d < acceptance_probability (m - current_metric st) (temperature st)
          then
            st\<lparr>optimizer := opt2\<lparr>opt_stats := (opt_stats opt2)
                   \<lparr>accepted_worse := accepted_worse (opt_stats opt2) + 1\<rparr>\<rparr>,
               current_metric := m,
               no_improvement_count := no_improvement_count st + 1\<rparr>
          else
            st\<lparr>optimizer := swap_lessons opt2 i j,
               no_improvement_count := no_improvement_count st + 1\<rparr>)"
      from assms f have st': "st' = st1\<lparr>temperature :=
                          max (min_temperature (optimizer st1))
                              (temperature st1 * cooling_rate (optimizer st1))\<rparr>"
        by (simp add: anneal_step_def Let_def opt1_def st1_def)
      consider (a) "m < current_metric st"
        | (b) "\<not> m < current_metric st"
              "accept_draw d < acceptance_probability (m - current_metric st) (temperature st)"
        | (c) "\<not> m < current_metric st"
              "\<not> accept_draw d < acceptance_probability (m - current_metric st) (temperature st)"
        by blast
      then show ?thesis
      proof cases
        case a
        show ?thesis
        proof (rule improved [OF i j])
          show "calculate_quality_metric lower ?sw < current_metric st" using a m by simp
          show "p3_lessons (optimizer st') = p3_lessons ?sw"
            using a by (simp add: st' st1_def Let_def o2)
          show "lessons_by_slot (optimizer st') = lessons_by_slot ?sw"
            using a by (simp add: st' st1_def Let_def o2)
          show "current_metric st' = calculate_quality_metric lower ?sw"
            using a by (simp add: st' st1_def Let_def m)
          show "if calculate_quality_metric lower ?sw < best_metric st
            then best_metric st' = calculate_quality_metric lower ?sw
               \<and> best_schedule st' = \<lparr>lessons = p3_lessons ?sw\<rparr>
            else best_metric st' = best_metric st \<and> best_schedule st' = best_schedule st"
            using a by (simp add: st' st1_def Let_def m [symmetric] copy_schedule_eq o2)
          show "lessons_by_teacher (optimizer st') = lessons_by_teacher (optimizer st)"
            using a by (simp add: st' st1_def Let_def o2)
          show "lessons_by_class (optimizer st') = lessons_by_class (optimizer st)"
            using a by (simp add: st' st1_def Let_def o2)
        qed (rule sm)
      next
        case b
        show ?thesis
        proof (rule worse [OF i j])
          show "\<not> calculate_quality_metric lower ?sw < current_metric st" using b m by simp
        qed (use b sm in \<open>simp_all add: st' st1_def o2 m\<close>)
      next
        case c
        show ?thesis
        proof (rule undone [OF i j])
          show "\<not> calculate_quality_metric lower ?sw < current_metric st" using c m by simp
        qed (use c sm in \<open>simp_all add: st' st1_def o2 m\<close>)
      qed
    qed
  qed
qed

subsection \<open>Invariants of the annealing loop\<close>

lemma anneal_invariant:
  assumes "anneal lower ds it st = Inr st'" and "I st"
    and step: "\<And>d it st st' b. I st \<Longrightarrow> anneal_step lower d it st = Inr (st', b) \<Longrightarrow> I st'"
  shows "I st'"
  using assms(1,2)
proof (induction ds arbitrary: it st)
  case Nil
  then show ?case by simp
next
  case (Cons d ds)
  from Cons.prems(1) obtain st1 stop where s: "anneal_step lower d it st = Inr (st1, stop)"
    by (auto split: sum.splits)
  from step [OF Cons.prems(2) s] have i1: "I st1" .
  show ?case
  proof (cases stop)
    case True
    with Cons.prems(1) s have "st' = st1" by simp
    with i1 show ?thesis by simp
  next
    case False
    with Cons.prems(1) s have "anneal lower ds (it + 1) st1 = Inr st'" by simp
    from Cons.IH [OF this i1] show ?thesis .
  qed
qed


lemma candidate_bounds:
  assumes "j \<in> set (find_swap_candidates opt i)"
  shows "j < length (p3_lessons opt)" and "i \<noteq> j"
  using assms by (auto simp: find_swap_candidates_mem)

lemma step_keeps_available:
  assumes i: "teachers_available (p3_lessons (optimizer st))
            \<and> teachers_available (lessons (best_schedule st))"
    and s: "anneal_step lower d it st = Inr (st', b)"
  shows "teachers_available (p3_lessons (optimizer st'))
       \<and> teachers_available (lessons (best_schedule st'))"
  using s
proof (cases rule: anneal_step_effect)
  case skip
  with i show ?thesis by simp
next
  case (improved i' j)
  from candidate_available [OF _ improved(1,2)] i improved(4,7) show ?thesis
    by (auto split: if_splits)
next
  case (worse i' j)
  from candidate_available [OF _ worse(1,2)] i worse(4,7) show ?thesis by simp
next
  case (undone i' j)
  from swap_twice_lessons [OF undone(1) candidate_bounds(1) [OF undone(2)]] i undone(4,7)
  show ?thesis by simp
qed


lemma optimize_result:
  assumes "optimize lower opt ds = Inr res"
  obtains st where "anneal lower ds 0 (initial_state lower opt) = Inr st"
    and "p3_lessons (optimizer res) = lessons (best_schedule st)"
    and "best_schedule res = best_schedule st" and "best_metric res = best_metric st"
    and "optimizer res = (build_indices ((optimizer st)\<lparr>p3_lessons := lessons (best_schedule st)\<rparr>))
           \<lparr>opt_stats := opt_stats (optimizer res)\<rparr>"
proof -
  from assms obtain st where a: "anneal lower ds 0 (initial_state lower opt) = Inr st"
    by (auto simp: optimize_def split: sum.splits)
  with assms have r: "res = st\<lparr>optimizer :=
      (build_indices ((optimizer st)\<lparr>p3_lessons := lessons (best_schedule st)\<rparr>))
        \<lparr>opt_stats := (opt_stats (build_indices ((optimizer st)
             \<lparr>p3_lessons := lessons (best_schedule st)\<rparr>)))\<lparr>final_metric := best_metric st\<rparr>\<rparr>\<rparr>"
    by (simp add: optimize_def Let_def)
  show ?thesis
    by (rule that [OF a]) (simp_all add: r)
qed

lemma initial_state_fields [simp]:
  "p3_lessons (optimizer (initial_state lower opt)) = p3_lessons opt"
  "lessons_by_slot (optimizer (initial_state lower opt)) = lessons_by_slot opt"
  "lessons_by_teacher (optimizer (initial_state lower opt)) = lessons_by_teacher opt"
  "lessons_by_class (optimizer (initial_state lower opt)) = lessons_by_class opt"
  "best_schedule (initial_state lower opt) = \<lparr>lessons = p3_lessons opt\<rparr>"
  "best_metric (initial_state lower opt) = calculate_quality_metric lower opt"
  "current_metric (initial_state lower opt) = calculate_quality_metric lower opt"
  by (simp_all add: initial_state_def Let_def copy_schedule_eq)

lemma optimize_keeps_available:
  assumes "teachers_available (lessons s)"
    and "optimize lower (new_optimizer s) ds = Inr res"
  shows "teachers_available (lessons (returned_schedule res))"
proof -
  from assms(2) obtain st where a: "anneal lower ds 0 (initial_state lower (new_optimizer s)) = Inr st"
    and l: "p3_lessons (optimizer res) = lessons (best_schedule st)"
    by (rule optimize_result)
  have "teachers_available (p3_lessons (optimizer st))
      \<and> teachers_available (lessons (best_schedule st))"
    by (rule anneal_invariant [OF a _ step_keeps_available]) (use assms(1) in simp_all)
  with l show ?thesis by (simp add: returned_schedule_def)
qed


subsection \<open>The best snapshot\<close>

lemma metric_cong:
  assumes "p3_lessons a = p3_lessons b" and "lessons_by_teacher a = lessons_by_teacher b"
    and "lessons_by_class a = lessons_by_class b"
  shows "calculate_quality_metric lower a = calculate_quality_metric lower b"
  using assms
  by (simp add: calculate_quality_metric_def count_teacher_gaps_def count_class_gaps_def
        count_suboptimal_timing_def calculate_daily_variance_def calculate_schedule_spread_def)

lemma metric_as_built:
  assumes "indices_as_built opt"
  shows "calculate_quality_metric lower opt = metric_of lower (p3_lessons opt)"
proof -
  have "indices_as_built (new_optimizer \<lparr>lessons = p3_lessons opt\<rparr>)"
    unfolding new_optimizer_def by (rule build_indices_as_built)
  with assms show ?thesis
    unfolding metric_of_def by (intro metric_cong) (simp_all add: indices_as_built_def)
qed

lemma swap_as_built:
  assumes "indices_as_built opt" and "i < length (p3_lessons opt)" and "j < length (p3_lessons opt)"
  shows "indices_as_built (swap_lessons opt i j)"
  using assms swap_keeps_indices [OF assms(2,3)] by (simp add: indices_as_built_def)

lemma step_keeps_metrics:
  assumes i: "metrics_ok lower st"
    and s: "anneal_step lower d it st = Inr (st', b)"
  shows "metrics_ok lower st'"
    and "best_metric st' = (case step_metric lower d it st of
             None \<Rightarrow> best_metric st | Some m \<Rightarrow> min (best_metric st) m)"
proof -
  let ?o = "optimizer st"
  from i have ab: "indices_as_built ?o"
    and bm: "best_metric st = metric_of lower (lessons (best_schedule st))"
    and cm: "current_metric st = metric_of lower (p3_lessons ?o)"
    and le: "best_metric st \<le> current_metric st"
    by (simp_all add: metrics_ok_def)
  have sw: "indices_as_built (swap_lessons ?o x y)"
      "calculate_quality_metric lower (swap_lessons ?o x y)
         = metric_of lower (p3_lessons (swap_lessons ?o x y))"
    if "x < length (p3_lessons ?o)" "y \<in> set (find_swap_candidates ?o x)" for x y
  proof -
    show a: "indices_as_built (swap_lessons ?o x y)"
      by (rule swap_as_built [OF ab that(1) candidate_bounds(1) [OF that(2)]])
    show "calculate_quality_metric lower (swap_lessons ?o x y)
         = metric_of lower (p3_lessons (swap_lessons ?o x y))"
      by (rule metric_as_built [OF a])
  qed
  have built: "indices_as_built (optimizer st')"
    if "lessons_by_teacher (optimizer st') = lessons_by_teacher ?o"
      "lessons_by_class (optimizer st') = lessons_by_class ?o"
      "teacher_index (p3_lessons (optimizer st')) = teacher_index (p3_lessons ?o)"
      "class_index (p3_lessons (optimizer st')) = class_index (p3_lessons ?o)"
    using that ab by (simp add: indices_as_built_def)
  from s have "metrics_ok lower st'
    \<and> best_metric st' = (case step_metric lower d it st of
             None \<Rightarrow> best_metric st | Some m \<Rightarrow> min (best_metric st) m)"
  proof (cases rule: anneal_step_effect)
    case skip
    have "indices_as_built (optimizer st')"
      by (rule built) (simp_all add: skip)
    with skip bm cm le show ?thesis by (simp add: metrics_ok_def)
  next
    case (improved x y)
    note sx = sw [OF improved(1,2)]
    have "indices_as_built (optimizer st')"
      using sx(1) improved(4,9,10) by (simp add: indices_as_built_def)
    with improved(3,4,6,7,8) sx(2) bm le show ?thesis
      by (auto simp: metrics_ok_def min_def split: if_splits)
  next
    case (worse x y)
    have "indices_as_built (optimizer st')"
      using sw(1) [OF worse(1,2)] worse(4,10,11) by (simp add: indices_as_built_def)
    with worse(3,4,6,7,8,9) sw(2) [OF worse(1,2)] bm le show ?thesis
      by (auto simp: metrics_ok_def min_def)
  next
    case (undone x y)
    have l: "p3_lessons (optimizer st') = p3_lessons ?o"
      using undone(4) swap_twice_lessons [OF undone(1) candidate_bounds(1) [OF undone(2)]]
      by simp
    have "indices_as_built (optimizer st')"
      by (rule built) (simp_all add: undone(10,11) l)
    with undone(3,6,7,8,9) l bm cm le show ?thesis
      by (auto simp: metrics_ok_def min_def)
  qed
  then show "metrics_ok lower st'"
    and "best_metric st' = (case step_metric lower d it st of
             None \<Rightarrow> best_metric st | Some m \<Rightarrow> min (best_metric st) m)"
    by simp_all
qed

lemma Min_insert_Min:
  fixes A B :: "real set"
  assumes "finite A" and "A \<noteq> {}" and "finite B"
  shows "Min (insert (Min A) B) = Min (A \<union> B)"
proof (cases "B = {}")
  case True
  then show ?thesis by simp
next
  case False
  with assms show ?thesis by (simp add: Min.union)
qed

lemma anneal_best_metric:
  assumes "anneal lower ds it st = Inr st'" and "metrics_ok lower st"
  shows "metrics_ok lower st'
       \<and> best_metric st' = Min (set (best_metric st # observed_metrics lower ds it st))"
  using assms
proof (induction ds arbitrary: it st)
  case Nil
  then show ?case by simp
next
  case (Cons d ds)
  from Cons.prems(1) obtain st1 stop where s: "anneal_step lower d it st = Inr (st1, stop)"
    by (auto split: sum.splits)
  note k = step_keeps_metrics [OF Cons.prems(2) s]
  define ms where "ms = (case step_metric lower d it st of None \<Rightarrow> [] | Some m \<Rightarrow> [m])"
  have b1: "best_metric st1 = Min (set (best_metric st # ms))"
    using k(2) by (auto simp: ms_def min_def split: option.splits)
  show ?case
  proof (cases stop)
    case True
    with Cons.prems(1) s have "st' = st1" by simp
    with k(1) b1 s True show ?thesis by (simp add: ms_def)
  next
    case False
    with Cons.prems(1) s have a: "anneal lower ds (it + 1) st1 = Inr st'" by simp
    from Cons.IH [OF a k(1)] have m: "metrics_ok lower st'"
      and b: "best_metric st' = Min (set (best_metric st1 # observed_metrics lower ds (it + 1) st1))"
      by simp_all
    let ?rest = "observed_metrics lower ds (it + 1) st1"
    have o: "observed_metrics lower (d # ds) it st = ms @ ?rest"
      using s False by (simp add: ms_def)
    have "Min (set (best_metric st1 # ?rest)) = Min (insert (best_metric st1) (set ?rest))"
      by simp
    also have "\<dots> = Min (insert (Min (set (best_metric st # ms))) (set ?rest))"
      by (simp add: b1)
    also have "\<dots> = Min (set (best_metric st # ms) \<union> set ?rest)"
      by (rule Min_insert_Min) simp_all
    also have "\<dots> = Min (set (best_metric st # observed_metrics lower (d # ds) it st))"
      by (simp only: o) simp
    finally show ?thesis using m b by simp
  qed
qed

lemma anneal_best_le:
  assumes "anneal lower ds it st = Inr st'"
  shows "best_metric st' \<le> best_metric st"
  using assms
proof (induction ds arbitrary: it st)
  case Nil
  then show ?case by simp
next
  case (Cons d ds)
  from Cons.prems(1) obtain st1 stop where s: "anneal_step lower d it st = Inr (st1, stop)"
    by (auto split: sum.splits)
  from s have b1: "best_metric st1 \<le> best_metric st"
    by (cases rule: anneal_step_effect) (auto split: if_splits)
  show ?case
  proof (cases stop)
    case True
    with Cons.prems(1) s b1 show ?thesis by simp
  next
    case False
    with Cons.prems(1) s have "anneal lower ds (it + 1) st1 = Inr st'" by simp
    from Cons.IH [OF this] b1 show ?thesis by simp
  qed
qed

lemma anneal_prefix_best:
  assumes "k1 \<le> k2" and "anneal lower (take k1 ds) it st = Inr st1"
    and "anneal lower (take k2 ds) it st = Inr st2"
  shows "best_metric st2 \<le> best_metric st1"
  using assms
proof (induction ds arbitrary: k1 k2 it st)
  case Nil
  then show ?case by simp
next
  case (Cons d ds)
  show ?case
  proof (cases k1)
    case 0
    with Cons.prems(2) have "st1 = st" by simp
    with anneal_best_le [OF Cons.prems(3)] show ?thesis by simp
  next
    case (Suc n1)
    with Cons.prems(1) obtain n2 where k2: "k2 = Suc n2" and n: "n1 \<le> n2"
      by (cases k2) auto
    from Cons.prems(2) Suc obtain sa stop where s: "anneal_step lower d it st = Inr (sa, stop)"
      by (auto split: sum.splits)
    show ?thesis
    proof (cases stop)
      case True
      with Cons.prems(2,3) s Suc k2 show ?thesis by simp
    next
      case False
      with Cons.prems(2,3) s Suc k2
      have "anneal lower (take n1 ds) (it + 1) sa = Inr st1"
        and "anneal lower (take n2 ds) (it + 1) sa = Inr st2" by simp_all
      from Cons.IH [OF n this] show ?thesis .
    qed
  qed
qed

subsection \<open>The loop never raises\<close>

lemma index_of_mem: "x \<in> set xs \<Longrightarrow> \<exists>k. index_of x xs = Inr k"
  by (induction xs) auto

lemma dict_get_list_append:
  "dict_get_list (dict_append k' v d) k
     = (if k = k' then dict_get_list d k @ [v] else dict_get_list d k)"
  by (auto simp: dict_get_list_def dict_append_def update_conv' map_add_def
        split: option.splits)

lemma dict_get_list_foldl:
  "dict_get_list (foldl (\<lambda>d r. dict_append (f r) r d) d0 rs) k
     = dict_get_list d0 k @ filter (\<lambda>r. f r = k) rs"
  by (induction rs arbitrary: d0) (auto simp: dict_get_list_append)

lemma teacher_index_mem:
  assumes "r < length ls"
  shows "r \<in> set (dict_get_list (teacher_index ls) (name (teacher (ls ! r))))"
proof -
  have "dict_get_list ([] :: (string \<times> nat list) list) k = []" for k
    by (simp add: dict_get_list_def)
  with assms show ?thesis by (simp add: teacher_index_def dict_get_list_foldl)
qed

lemma creates_gap_total:
  assumes "indices_as_built opt" and "r < length (p3_lessons opt)"
  shows "\<exists>b. creates_gap opt r = Inr b"
proof -
  let ?ls = "p3_lessons opt"
  let ?refs = "day_refs ?ls (dict_get_list (lessons_by_teacher opt) (name (teacher (?ls ! r))))
                 (day (time_slot (?ls ! r)))"
  from assms have "r \<in> set ?refs"
    using teacher_index_mem [OF assms(2)] by (simp add: indices_as_built_def day_refs_def)
  then have "lesson_number (time_slot (?ls ! r))
      \<in> set (sort (map (\<lambda>x. lesson_number (time_slot (?ls ! x))) ?refs))"
    by simp
  from index_of_mem [OF this] obtain k where
    "index_of (lesson_number (time_slot (?ls ! r)))
       (sort (map (\<lambda>x. lesson_number (time_slot (?ls ! x))) ?refs)) = Inr k" ..
  then show ?thesis by (auto simp: creates_gap_def Let_def)
qed

lemma problem_scan_total:
  assumes "indices_as_built opt" and "\<forall>r\<in>set rs. r < length (p3_lessons opt)"
  shows "\<exists>ps. problem_scan lower opt rs = Inr ps"
  using assms(2)
proof (induction rs)
  case Nil
  then show ?case by simp
next
  case (Cons r rs)
  then obtain ps where ps: "problem_scan lower opt rs = Inr ps" by auto
  from Cons.prems creates_gap_total [OF assms(1), of r] obtain b where "creates_gap opt r = Inr b"
    by auto
  with ps show ?case by simp
qed

lemma find_and_try_swap_total:
  assumes "indices_as_built opt"
  shows "\<exists>x. find_and_try_swap lower opt d = Inr x"
proof -
  from problem_scan_total [OF assms, of "[0..<length (p3_lessons opt)]" lower]
  obtain ps where "find_problem_lessons lower opt = Inr ps"
    by (auto simp: find_problem_lessons_def)
  then show ?thesis by (simp add: find_and_try_swap_def Let_def)
qed

lemma anneal_step_total:
  assumes "indices_as_built (optimizer st)"
  shows "\<exists>st' b. anneal_step lower d it st = Inr (st', b)"
proof -
  let ?o = "(optimizer st)\<lparr>opt_stats := (opt_stats (optimizer st))\<lparr>iterations := it + 1\<rparr>\<rparr>"
  from assms have "indices_as_built ?o" by (simp add: indices_as_built_def)
  from find_and_try_swap_total [OF this, of lower d]
  obtain x where "find_and_try_swap lower ?o d = Inr x" ..
  then show ?thesis
    by (cases x) (auto simp: anneal_step_def Let_def)
qed

lemma anneal_total:
  assumes "metrics_ok lower st"
  shows "\<exists>st'. anneal lower ds it st = Inr st'"
  using assms
proof (induction ds arbitrary: it st)
  case Nil
  then show ?case by simp
next
  case (Cons d ds)
  from Cons.prems have "indices_as_built (optimizer st)" by (simp add: metrics_ok_def)
  from anneal_step_total [OF this, of lower d it]
  obtain st1 stop where s: "anneal_step lower d it st = Inr (st1, stop)" by blast
  from step_keeps_metrics(1) [OF Cons.prems s] have "metrics_ok lower st1" .
  from Cons.IH [OF this, of "it + 1"] s show ?case by (cases stop) auto
qed

lemma initial_metrics_ok: "metrics_ok lower (initial_state lower (new_optimizer s))"
proof -
  have a: "indices_as_built (new_optimizer s)"
    unfolding new_optimizer_def by (rule build_indices_as_built)
  then have "indices_as_built (optimizer (initial_state lower (new_optimizer s)))"
    by (simp add: indices_as_built_def)
  with metric_as_built [OF a, of lower] show ?thesis
    by (simp add: metrics_ok_def)
qed

lemma optimize_total: "\<exists>res. optimize lower (new_optimizer s) ds = Inr res"
proof -
  from anneal_total [OF initial_metrics_ok, where ds = ds and it = 0]
  obtain st where "anneal lower ds 0 (initial_state lower (new_optimizer s)) = Inr st" ..
  then show ?thesis by (simp add: optimize_def Let_def)
qed

section \<open>The invariants of the three phases\<close>

lemma returned_is_best:
  assumes "optimize lower opt ds = Inr res"
  shows "returned_schedule res = best_schedule res"
  using assms by (rule optimize_result) (simp add: returned_schedule_def)

text \<open>
  C2. Phase 3 started on any schedule returns; the schedule it returns is its best snapshot,
  and the metric of that schedule is the least of the metrics observed during the run (the
  initial one and the one computed after every trial swap); and the best metric recorded
  after \<open>k2\<close> iterations is never above the one recorded after \<open>k1 \<le> k2\<close> iterations.
\<close>

theorem optimize_returns_best_snapshot:
  "\<exists>res. optimize lower (new_optimizer s) ds = Inr res
     \<and> returned_schedule res = best_schedule res
     \<and> metric_of lower (lessons (returned_schedule res))
         = Min (set (metric_of lower (lessons s)
                       # observed_metrics lower ds 0 (initial_state lower (new_optimizer s))))
     \<and> (\<forall>k1 k2. k1 \<le> k2 \<longrightarrow>
          (\<exists>st1 st2. state_after lower (new_optimizer s) ds k1 = Inr st1
             \<and> state_after lower (new_optimizer s) ds k2 = Inr st2
             \<and> best_metric st2 \<le> best_metric st1))"
proof -
  let ?st0 = "initial_state lower (new_optimizer s)"
  from optimize_total obtain res where r: "optimize lower (new_optimizer s) ds = Inr res" ..
  from r obtain st where a: "anneal lower ds 0 ?st0 = Inr st"
    and l: "p3_lessons (optimizer res) = lessons (best_schedule st)"
    by (rule optimize_result)
  have ab: "indices_as_built (new_optimizer s)"
    unfolding new_optimizer_def by (rule build_indices_as_built)
  have m0: "best_metric ?st0 = metric_of lower (lessons s)"
    using metric_as_built [OF ab, of lower] by simp
  from anneal_best_metric [OF a initial_metrics_ok]
  have "metric_of lower (lessons (best_schedule st))
      = Min (set (best_metric ?st0 # observed_metrics lower ds 0 ?st0))"
    by (simp add: metrics_ok_def)
  with l m0 have best: "metric_of lower (lessons (returned_schedule res))
      = Min (set (metric_of lower (lessons s) # observed_metrics lower ds 0 ?st0))"
    by (simp add: returned_schedule_def)
  have mono: "\<exists>st1 st2. state_after lower (new_optimizer s) ds k1 = Inr st1
             \<and> state_after lower (new_optimizer s) ds k2 = Inr st2
             \<and> best_metric st2 \<le> best_metric st1" if "k1 \<le> k2" for k1 k2
  proof -
    from anneal_total [OF initial_metrics_ok]
    obtain st1 where s1: "anneal lower (take k1 ds) 0 ?st0 = Inr st1" by blast
    from anneal_total [OF initial_metrics_ok]
    obtain st2 where s2: "anneal lower (take k2 ds) 0 ?st0 = Inr st2" by blast
    from anneal_prefix_best [OF that s1 s2] s1 s2 show ?thesis
      by (simp add: state_after_def)
  qed
  from r returned_is_best [OF r] best mono show ?thesis by blast
qed

theorem optimize_returns_best_snapshot_witness:
  "\<exists>res. optimize id (new_optimizer schedule_three) [draws_first, draws_first] = Inr res
     \<and> returned_schedule res = best_schedule res
     \<and> metric_of id (lessons (returned_schedule res))
         = Min (set (metric_of id (lessons schedule_three)
                       # observed_metrics id [draws_first, draws_first] 0
                           (initial_state id (new_optimizer schedule_three))))
     \<and> (\<exists>st1 st2. state_after id (new_optimizer schedule_three) [draws_first, draws_first] 1
                      = Inr st1
             \<and> state_after id (new_optimizer schedule_three) [draws_first, draws_first] 2
                      = Inr st2
             \<and> best_metric st2 \<le> best_metric st1)"
proof -
  have "(1 :: nat) \<le> 2" by simp
  with optimize_returns_best_snapshot [of id schedule_three "[draws_first, draws_first]"]
  show ?thesis by blast
qed

text \<open>
  C4. No lesson is on a weekday on which its teacher is unavailable: in the lessons of
  Phase 1; in the lessons of Phase 2, which keeps the property from any sound placer and so
  has it when run on the outcome of Phase 1; and in the schedule Phase 3 returns, which it
  does return, for any schedule that has the property and so for the outcome of Phase 2.
\<close>

theorem unavailable_teacher_never_scheduled:
  "teachers_available (phase1_lessons ld jitter)
   \<and> (placer_ok p \<and> teachers_available (lessons (p2_schedule p))
        \<longrightarrow> teachers_available (lessons (p2_schedule (place_all_mandatory_subjects lower p))))
   \<and> teachers_available (phase2_lessons lower ld jitter)
   \<and> (teachers_available (lessons s)
        \<longrightarrow> (\<exists>res. optimize lower (new_optimizer s) ds = Inr res
               \<and> teachers_available (lessons (returned_schedule res))))
   \<and> (\<exists>res. optimize lower (new_optimizer \<lparr>lessons = phase2_lessons lower ld jitter\<rparr>) ds = Inr res
         \<and> teachers_available (lessons (returned_schedule res)))"
proof -
  have p1: "teachers_available (phase1_lessons ld jitter)" by (rule phase1_lessons_available)
  have p2: "teachers_available (lessons (p2_schedule (place_all_mandatory_subjects lower q)))"
    if "placer_ok q" "teachers_available (lessons (p2_schedule q))" for q
    using that by (rule phase2_keeps_available)
  have s2: "teachers_available (phase2_lessons lower ld jitter)"
    unfolding phase2_lessons_def
    by (rule p2 [OF phase2_start_ok]) (simp add: phase2_start_def new_placer_fields p1)
  have p3: "\<exists>res. optimize lower (new_optimizer x) ds = Inr res
               \<and> teachers_available (lessons (returned_schedule res))"
    if "teachers_available (lessons x)" for x
  proof -
    from optimize_total obtain res where r: "optimize lower (new_optimizer x) ds = Inr res" ..
    from optimize_keeps_available [OF that r] r show ?thesis by blast
  qed
  have s3: "\<exists>res. optimize lower (new_optimizer \<lparr>lessons = phase2_lessons lower ld jitter\<rparr>) ds
                   = Inr res
         \<and> teachers_available (lessons (returned_schedule res))"
    by (rule p3) (simp add: s2)
  from p1 p2 s2 p3 s3 show ?thesis by blast
qed

theorem unavailable_teacher_never_scheduled_witness:
  "teachers_available (phase1_lessons loader_gap jitter_gap)
   \<and> placer_ok placer_no_rooms \<and> teachers_available (lessons (p2_schedule placer_no_rooms))
   \<and> teachers_available (lessons (p2_schedule (place_all_mandatory_subjects id placer_no_rooms)))
   \<and> teachers_available (phase2_lessons id loader_gap jitter_gap)
   \<and> teachers_available (lessons schedule_three)
   \<and> (\<exists>res. optimize id (new_optimizer schedule_three) [draws_first] = Inr res
         \<and> teachers_available (lessons (returned_schedule res)))"
proof -
  have h1: "placer_ok placer_no_rooms" by (rule placer_no_rooms_ok)
  have h2: "teachers_available (lessons (p2_schedule placer_no_rooms))" by code_simp
  have h3: "teachers_available (lessons schedule_three)" by code_simp
  from unavailable_teacher_never_scheduled
         [of loader_gap jitter_gap placer_no_rooms id schedule_three "[draws_first]"]
       h1 h2 h3
  show ?thesis by blast
qed



end
